theory Spec2Isabelle
  imports Main "HOL-Library.Word"
begin

section \<open>Fifo4b: a bounded ring-buffer FIFO with constrained, cached cursors\<close>

text \<open>
  Shallow embedding of \<^verbatim>\<open>Fifo4b.hpp\<close>, run by one thread at a time.

  \<^item> \<^verbatim>\<open>size_type\<close> is an unsigned machine integer; it is modelled as \<open>'w word\<close>, so
    \<open>+\<close> and \<open>-\<close> wrap around modulo \<open>2 ^ LENGTH('w)\<close> exactly as in C++.
  \<^item> The raw storage \<^verbatim>\<open>ring_\<close> is a list of slots; a slot is \<open>None\<close> while it holds
    no constructed object and \<open>Some v\<close> after placement-new of \<open>v\<close>.
  \<^item> Undefined behaviour (an access outside the allocation, a read of a slot that
    holds no object) is a \<open>fault\<close> returned as \<open>Inl\<close>.
  \<^item> The atomic cursors have no initialiser; since C++20 a default-constructed
    \<^verbatim>\<open>std::atomic\<close> is value-initialised, so they start at 0 like the cached cursors.
  \<^item> The private two-argument overloads \<^verbatim>\<open>full(pushCursor, popCursor)\<close> and
    \<^verbatim>\<open>empty(pushCursor, popCursor)\<close> are \<open>full\<close> and \<open>empty\<close>; the public observers are
    \<open>full_fifo\<close>, \<open>empty_fifo\<close>, \<open>size_fifo\<close> and \<open>capacity\<close>.
  \<^item> The source's members end in an underscore, which is not a legal name here; the
    record fields end in \<open>_f\<close> instead.
\<close>

subsection \<open>State\<close>

datatype fault = OutOfBounds | UninitRead

record (overloaded) ('a, 'w) Fifo4b =
  capacity_f :: "'w word"
  ring_f :: "'a option list"
  pushCursor_f :: "'w word"
  popCursorCached_f :: "'w word"
  popCursor_f :: "'w word"
  pushCursorCached_f :: "'w word"

text \<open>The constructor allocates \<open>capacity + 1\<close> slots, the sum computed in \<^verbatim>\<open>size_type\<close>.\<close>

definition Fifo4b :: "'w::len word \<Rightarrow> ('a, 'w) Fifo4b" where
  "Fifo4b capacity =
     \<lparr>capacity_f = capacity,
      ring_f = replicate (unat (capacity + 1)) None,
      pushCursor_f = 0, popCursorCached_f = 0, popCursor_f = 0, pushCursorCached_f = 0\<rparr>"

subsection \<open>The private predicates on two cursors\<close>

definition full :: "('a, 'w::len) Fifo4b \<Rightarrow> 'w word \<Rightarrow> 'w word \<Rightarrow> bool" where
  "full q pushCursor popCursor =
     (if pushCursor < popCursor then pushCursor = popCursor - 1
      else if popCursor < pushCursor then popCursor = pushCursor - capacity_f q
      else False)"

definition empty :: "'w::len word \<Rightarrow> 'w word \<Rightarrow> bool" where
  "empty pushCursor popCursor = (pushCursor = popCursor)"

subsection \<open>The public observers\<close>

definition size_fifo :: "('a, 'w::len) Fifo4b \<Rightarrow> 'w word" where
  "size_fifo q =
     (let pushCursor = pushCursor_f q; popCursor = popCursor_f q
      in if popCursor \<le> pushCursor then pushCursor - popCursor
         else capacity_f q - (popCursor - (pushCursor + 1)))"

definition empty_fifo :: "('a, 'w::len) Fifo4b \<Rightarrow> bool" where
  "empty_fifo q = empty (pushCursor_f q) (popCursor_f q)"

definition full_fifo :: "('a, 'w::len) Fifo4b \<Rightarrow> bool" where
  "full_fifo q = full q (pushCursor_f q) (popCursor_f q)"

definition capacity :: "('a, 'w::len) Fifo4b \<Rightarrow> 'w word" where
  "capacity q = capacity_f q"

subsection \<open>push and pop\<close>

text \<open>
  \<open>push_store\<close> is the second half of \<^verbatim>\<open>push\<close>: placement-new into the slot at
  \<open>pushCursor\<close>, then the store of the advanced cursor.
\<close>

definition push_store :: "'a \<Rightarrow> 'w::len word \<Rightarrow> ('a, 'w) Fifo4b \<Rightarrow> fault + bool \<times> ('a, 'w) Fifo4b" where
  "push_store val pushCursor q =
     (if unat pushCursor < length (ring_f q)
      then Inr (True,
             q\<lparr>ring_f := (ring_f q)[unat pushCursor := Some val],
               pushCursor_f := (if pushCursor = capacity_f q then 0 else pushCursor + 1)\<rparr>)
      else Inl OutOfBounds)"

definition push :: "'a \<Rightarrow> ('a, 'w::len) Fifo4b \<Rightarrow> fault + bool \<times> ('a, 'w) Fifo4b" where
  "push val q =
     (let pushCursor = pushCursor_f q
      in if full q pushCursor (popCursorCached_f q)
         then (let q1 = q\<lparr>popCursorCached_f := popCursor_f q\<rparr>
               in if full q1 pushCursor (popCursorCached_f q1)
                  then Inr (False, q1)
                  else push_store val pushCursor q1)
         else push_store val pushCursor q)"

text \<open>
  \<open>pop_load\<close> is the second half of \<^verbatim>\<open>pop\<close>: the copy out of the slot at
  \<open>popCursor\<close>, the destructor call, then the store of the advanced cursor.
  \<^verbatim>\<open>pop\<close> returns \<^verbatim>\<open>true\<close> and assigns its out-parameter, or returns \<^verbatim>\<open>false\<close>
  and leaves it alone; the model returns \<open>Some v\<close> or \<open>None\<close>.
\<close>

definition pop_load :: "'w::len word \<Rightarrow> ('a, 'w) Fifo4b \<Rightarrow> fault + 'a option \<times> ('a, 'w) Fifo4b" where
  "pop_load popCursor q =
     (if unat popCursor < length (ring_f q)
      then (case ring_f q ! unat popCursor of
              None \<Rightarrow> Inl UninitRead
            | Some v \<Rightarrow>
                Inr (Some v,
                  q\<lparr>ring_f := (ring_f q)[unat popCursor := None],
                    popCursor_f := (if popCursor = capacity_f q then 0 else popCursor + 1)\<rparr>))
      else Inl OutOfBounds)"

definition pop :: "('a, 'w::len) Fifo4b \<Rightarrow> fault + 'a option \<times> ('a, 'w) Fifo4b" where
  "pop q =
     (let popCursor = popCursor_f q
      in if empty (pushCursorCached_f q) popCursor
         then (let q1 = q\<lparr>pushCursorCached_f := pushCursor_f q\<rparr>
               in if empty (pushCursorCached_f q1) popCursor
                  then Inr (None, q1)
                  else pop_load popCursor q1)
         else pop_load popCursor q)"

subsection \<open>Sequences of calls made by one thread\<close>

datatype 'a call = Push 'a | Pop

datatype 'a ret = Pushed bool | Popped "'a option"

fun exec :: "'a call list \<Rightarrow> ('a, 'w::len) Fifo4b \<Rightarrow> fault + 'a ret list \<times> ('a, 'w) Fifo4b" where
  "exec [] q = Inr ([], q)"
| "exec (Push val # cs) q =
     (case push val q of
        Inl e \<Rightarrow> Inl e
      | Inr (b, q') \<Rightarrow>
          (case exec cs q' of Inl e \<Rightarrow> Inl e | Inr (rs, q'') \<Rightarrow> Inr (Pushed b # rs, q'')))"
| "exec (Pop # cs) q =
     (case pop q of
        Inl e \<Rightarrow> Inl e
      | Inr (r, q') \<Rightarrow>
          (case exec cs q' of Inl e \<Rightarrow> Inl e | Inr (rs, q'') \<Rightarrow> Inr (Popped r # rs, q'')))"

text \<open>The values of the pushes that returned \<^verbatim>\<open>true\<close>, in call order.\<close>

fun pushed :: "'a call list \<Rightarrow> 'a ret list \<Rightarrow> 'a list" where
  "pushed (Push val # cs) (Pushed True # rs) = val # pushed cs rs"
| "pushed (c # cs) (r # rs) = pushed cs rs"
| "pushed _ _ = []"

text \<open>The values handed out by the pops that returned \<^verbatim>\<open>true\<close>, in call order.\<close>

fun popped :: "'a ret list \<Rightarrow> 'a list" where
  "popped [] = []"
| "popped (Popped (Some v) # rs) = v # popped rs"
| "popped (r # rs) = popped rs"

text \<open>Popping until \<^verbatim>\<open>pop\<close> returns \<^verbatim>\<open>false\<close>, at most \<open>n\<close> times.\<close>

fun drain :: "nat \<Rightarrow> ('a, 'w::len) Fifo4b \<Rightarrow> 'a list" where
  "drain 0 q = []"
| "drain (Suc n) q =
     (case pop q of Inr (Some v, q') \<Rightarrow> v # drain n q' | _ \<Rightarrow> [])"

text \<open>Every state the queue passes through while the calls run, the first one included.\<close>

fun states :: "'a call list \<Rightarrow> ('a, 'w::len) Fifo4b \<Rightarrow> ('a, 'w) Fifo4b list" where
  "states [] q = [q]"
| "states (Push val # cs) q =
     q # (case push val q of Inl e \<Rightarrow> [] | Inr (b, q') \<Rightarrow> states cs q')"
| "states (Pop # cs) q =
     q # (case pop q of Inl e \<Rightarrow> [] | Inr (r, q') \<Rightarrow> states cs q')"

text \<open>How many pushes, and how many pops, returned \<^verbatim>\<open>true\<close>.\<close>

fun num_pushed :: "'a ret list \<Rightarrow> nat" where
  "num_pushed [] = 0"
| "num_pushed (Pushed True # rs) = Suc (num_pushed rs)"
| "num_pushed (r # rs) = num_pushed rs"

fun num_popped :: "'a ret list \<Rightarrow> nat" where
  "num_popped [] = 0"
| "num_popped (Popped (Some v) # rs) = Suc (num_popped rs)"
| "num_popped (r # rs) = num_popped rs"

subsection \<open>The values the arithmetic of the observers computes\<close>

text \<open>
  Each list holds, in evaluation order, the result of every \<open>+\<close> and \<open>-\<close> that the
  function of the same name evaluates on the given cursors: first as the machine computes
  it in \<^verbatim>\<open>size_type\<close>, then as the exact integer the expression denotes.
\<close>

definition full_arith :: "('a, 'w::len) Fifo4b \<Rightarrow> 'w word \<Rightarrow> 'w word \<Rightarrow> 'w word list" where
  "full_arith q pushCursor popCursor =
     (if pushCursor < popCursor then [popCursor - 1]
      else if popCursor < pushCursor then [pushCursor - capacity_f q]
      else [])"

definition full_exact :: "('a, 'w::len) Fifo4b \<Rightarrow> 'w word \<Rightarrow> 'w word \<Rightarrow> int list" where
  "full_exact q pushCursor popCursor =
     (if pushCursor < popCursor then [uint popCursor - 1]
      else if popCursor < pushCursor then [uint pushCursor - uint (capacity_f q)]
      else [])"

definition size_arith :: "('a, 'w::len) Fifo4b \<Rightarrow> 'w word list" where
  "size_arith q =
     (let pushCursor = pushCursor_f q; popCursor = popCursor_f q
      in if popCursor \<le> pushCursor then [pushCursor - popCursor]
         else [pushCursor + 1, popCursor - (pushCursor + 1),
               capacity_f q - (popCursor - (pushCursor + 1))])"

definition size_exact :: "('a, 'w::len) Fifo4b \<Rightarrow> int list" where
  "size_exact q =
     (let pushCursor = uint (pushCursor_f q); popCursor = uint (popCursor_f q)
      in if popCursor \<le> pushCursor then [pushCursor - popCursor]
         else [pushCursor + 1, popCursor - (pushCursor + 1),
               uint (capacity_f q) - (popCursor - (pushCursor + 1))])"

subsection \<open>Invariants\<close>

text \<open>All four cursors lie in \<open>[0, capacity]\<close>.\<close>

definition cursors_ok :: "('a, 'w::len) Fifo4b \<Rightarrow> bool" where
  "cursors_ok q \<longleftrightarrow>
     pushCursor_f q \<le> capacity_f q \<and> popCursor_f q \<le> capacity_f q \<and>
     popCursorCached_f q \<le> capacity_f q \<and> pushCursorCached_f q \<le> capacity_f q"

text \<open>
  The queue of positive capacity \<open>C\<close> and its history: \<open>xs\<close> are the elements it holds,
  oldest first; \<open>nq\<close> pops have succeeded so far, hence \<open>nq + length xs\<close> pushes; the
  producer's cache holds the pop cursor as it was after \<open>c\<close> pops, the consumer's cache
  the push cursor as it was after \<open>k\<close> pushes.
\<close>

definition tracks :: "'a list \<Rightarrow> nat \<Rightarrow> nat \<Rightarrow> nat \<Rightarrow> ('a, 'w::len) Fifo4b \<Rightarrow> bool" where
  "tracks xs nq c k q \<longleftrightarrow>
     (let C = unat (capacity_f q); M = C + 1; np = nq + length xs
      in 0 < C \<and> M < 2 ^ LENGTH('w) \<and> length (ring_f q) = M \<and> length xs \<le> C \<and>
         unat (pushCursor_f q) = np mod M \<and> unat (popCursor_f q) = nq mod M \<and>
         unat (popCursorCached_f q) = c mod M \<and> c \<le> nq \<and> np \<le> c + C \<and>
         unat (pushCursorCached_f q) = k mod M \<and> nq \<le> k \<and> k \<le> np \<and>
         (\<forall>i<length xs. ring_f q ! ((nq + i) mod M) = Some (xs ! i)))"


subsection \<open>The bounded queue the ring implements\<close>

text \<open>
  A queue of at most \<open>C\<close> elements as a plain list: push appends unless \<open>C\<close> elements are
  held, pop removes the head unless the list is empty.
\<close>

fun queue_exec :: "nat \<Rightarrow> 'a call list \<Rightarrow> 'a list \<Rightarrow> 'a ret list \<times> 'a list" where
  "queue_exec C [] xs = ([], xs)"
| "queue_exec C (Push val # cs) xs =
     (if length xs < C
      then (case queue_exec C cs (xs @ [val]) of (rs, ys) \<Rightarrow> (Pushed True # rs, ys))
      else (case queue_exec C cs xs of (rs, ys) \<Rightarrow> (Pushed False # rs, ys)))"
| "queue_exec C (Pop # cs) xs =
     (case xs of
        [] \<Rightarrow> (case queue_exec C cs [] of (rs, ys) \<Rightarrow> (Popped None # rs, ys))
      | x # xs' \<Rightarrow> (case queue_exec C cs xs' of (rs, ys) \<Rightarrow> (Popped (Some x) # rs, ys)))"

section \<open>Capacity 0\<close>






section \<open>Intermediate values of the cursor arithmetic\<close>

lemma replicate5: "replicate 5 x = [x, x, x, x, x]"
  by (simp add: eval_nat_numeral)

text \<open>
  C8. Claimed: on cursors a fresh queue can reach, no arithmetic of \<open>size()\<close>, \<open>full()\<close>
  or \<open>empty()\<close> yields an intermediate value outside \<open>[0, capacity]\<close>, and no subtraction
  underflows. The code of \<open>full\<close> does not keep to this. With \<^verbatim>\<open>size_type\<close> of 64 bits
  and capacity 4, two pushes on a fresh queue leave the push cursor at 2 and both pop
  cursors at 0; the third push then evaluates \<open>full 2 0\<close>, whose second branch computes
  \<open>pushCursor - capacity_\<close>, that is \<open>2 - 4\<close>: the exact value is \<open>-2\<close> and the machine
  value wraps to \<open>2^64 - 2\<close>, far above the capacity. The verdict of \<open>full\<close> is still the
  right one.
\<close>

theorem full_subtraction_underflows:
  "exec [Push a, Push b] (Fifo4b (4 :: 64 word)) =
     Inr ([Pushed True, Pushed True],
          \<lparr>capacity_f = 4, ring_f = [Some a, Some b, None, None, None], pushCursor_f = 2,
           popCursorCached_f = 0, popCursor_f = 0, pushCursorCached_f = 0\<rparr>) \<and>
   full_arith (Fifo4b (4 :: 64 word) :: ('a, 64) Fifo4b) 2 0 = [18446744073709551614] \<and>
   full_exact (Fifo4b (4 :: 64 word) :: ('a, 64) Fifo4b) 2 0 = [- 2] \<and>
   (4 :: 64 word) < 18446744073709551614 \<and>
   \<not> full (Fifo4b (4 :: 64 word) :: ('a, 64) Fifo4b) 2 0"
  by (simp add: Fifo4b_def push_def push_store_def full_def full_arith_def full_exact_def replicate5)

section \<open>Cursor arithmetic\<close>

lemma unat_sub_wrap:
  fixes a b :: "'w::len word"
  assumes "a < b"
  shows "unat (a - b) = 2 ^ LENGTH('w) + unat a - unat b"
  using assms by (metis add.commute unat_sub_if' verit_comp_simplify1(3) word_less_iff_unsigned)

lemma full_iff:
  fixes q :: "('a, 'w::len) Fifo4b"
  assumes pos: "0 < capacity_f q" and pu: "pu \<le> capacity_f q" and po: "po \<le> capacity_f q"
  shows "full q pu po \<longleftrightarrow> unat po = (unat pu + 1) mod (unat (capacity_f q) + 1)"
proof -
  let ?C = "unat (capacity_f q)"
  have C: "0 < ?C" using pos by (simp add: word_less_nat_alt)
  have puC: "unat pu \<le> ?C" using pu by (simp add: word_le_nat_alt)
  have poC: "unat po \<le> ?C" using po by (simp add: word_le_nat_alt)
  have bd: "?C < 2 ^ LENGTH('w)" by (rule unsigned_less)
  consider (lt) "unat pu < unat po" | (gt) "unat po < unat pu" | (eq) "unat pu = unat po"
    by linarith
  then show ?thesis
  proof cases
    case lt
    then have w: "pu < po" by (simp add: word_less_nat_alt)
    from lt have "po \<noteq> 0" by auto
    then have "unat (po - 1) = unat po - 1" by (rule unat_minus_one)
    then have "pu = po - 1 \<longleftrightarrow> unat pu = unat po - 1"
      by (simp add: word_unat_eq_iff)
    with w lt poC show ?thesis by (auto simp: full_def)
  next
    case gt
    then have w: "po < pu" "\<not> pu < po" by (simp_all add: word_less_nat_alt)
    show ?thesis
    proof (cases "pu = capacity_f q")
      case True
      from w have "full q pu po \<longleftrightarrow> po = pu - capacity_f q" by (simp add: full_def)
      also have "\<dots> \<longleftrightarrow> po = 0" using True by simp
      also have "\<dots> \<longleftrightarrow> unat po = 0" by (simp add: word_unat_eq_iff)
      also have "\<dots> \<longleftrightarrow> unat po = (unat pu + 1) mod (?C + 1)" using True by simp
      finally show ?thesis .
    next
      case False
      with puC have l: "unat pu < ?C" by (simp add: word_unat_eq_iff)
      then have "pu < capacity_f q" by (simp add: word_less_nat_alt)
      then have "unat (pu - capacity_f q) = 2 ^ LENGTH('w) + unat pu - ?C"
        by (rule unat_sub_wrap)
      with bd gt have "unat po \<noteq> unat (pu - capacity_f q)" by linarith
      then have "po \<noteq> pu - capacity_f q" by auto
      with w l gt show ?thesis by (auto simp: full_def)
    qed
  next
    case eq
    then have "pu = po" by (simp add: word_unat_eq_iff)
    then have nf: "\<not> full q pu po" by (simp add: full_def)
    have "unat po \<noteq> (unat pu + 1) mod (?C + 1)"
    proof (cases "unat pu = ?C")
      case True
      with C eq show ?thesis by simp
    next
      case False
      with puC eq show ?thesis by simp
    qed
    with nf show ?thesis by simp
  qed
qed

section \<open>The effect of one call\<close>

lemma next_cursor_unat:
  fixes p cap :: "'w::len word"
  assumes "p \<le> cap"
  shows "unat (if p = cap then 0 else p + 1) = (unat p + 1) mod (unat cap + 1)"
proof (cases "p = cap")
  case True
  then show ?thesis by simp
next
  case False
  with assms have lt: "unat p < unat cap"
    by (simp add: word_le_nat_alt word_unat_eq_iff)
  have bd: "unat cap < 2 ^ LENGTH('w)" by (rule unsigned_less)
  from lt bd have "unat p + 1 < 2 ^ LENGTH('w)" by linarith
  then have "unat (p + 1) = unat p + 1"
    by (simp add: unat_add_lem[THEN iffD1])
  with lt False show ?thesis by simp
qed

lemma next_cursor_le:
  fixes p cap :: "'w::len word"
  assumes "p \<le> cap"
  shows "(if p = cap then 0 else p + 1) \<le> cap"
proof -
  have "(unat p + 1) mod (unat cap + 1) \<le> unat cap"
    by (metis Suc_eq_plus1 less_Suc_eq_le mod_less_divisor zero_less_Suc)
  with next_cursor_unat[OF assms] show ?thesis
    by (simp only: word_le_nat_alt)
qed

lemma push_store_Inr:
  assumes "push_store val p q = Inr (b, q')"
  shows "b \<and> q' = q\<lparr>ring_f := (ring_f q)[unat p := Some val],
               pushCursor_f := (if p = capacity_f q then 0 else p + 1)\<rparr>"
  using assms by (auto simp: push_store_def split: if_splits)

lemma pop_load_Inr:
  assumes "pop_load p q = Inr (r, q')"
  shows "r \<noteq> None \<and> q' = q\<lparr>ring_f := (ring_f q)[unat p := None],
               popCursor_f := (if p = capacity_f q then 0 else p + 1)\<rparr>"
proof (cases "ring_f q ! unat p")
  case None
  with assms show ?thesis by (simp add: pop_load_def split: if_splits)
next
  case (Some v)
  then have eq: "pop_load p q =
      (if unat p < length (ring_f q)
       then Inr (Some v, q\<lparr>ring_f := (ring_f q)[unat p := None],
               popCursor_f := (if p = capacity_f q then 0 else p + 1)\<rparr>)
       else Inl OutOfBounds)"
    by (simp add: pop_load_def)
  from assms show ?thesis unfolding eq by (auto split: if_splits)
qed

lemma full_update [simp]:
  "full (q\<lparr>popCursorCached_f := x\<rparr>) a b = full q a b"
  by (simp add: full_def)

lemma push_cases:
  assumes "push val q = Inr (b, q')"
  shows "(\<not> b \<and> full q (pushCursor_f q) (popCursorCached_f q) \<and>
            full q (pushCursor_f q) (popCursor_f q) \<and>
            q' = q\<lparr>popCursorCached_f := popCursor_f q\<rparr>) \<or>
         (b \<and> full q (pushCursor_f q) (popCursorCached_f q) \<and>
            \<not> full q (pushCursor_f q) (popCursor_f q) \<and>
            push_store val (pushCursor_f q) (q\<lparr>popCursorCached_f := popCursor_f q\<rparr>) = Inr (b, q')) \<or>
         (b \<and> \<not> full q (pushCursor_f q) (popCursorCached_f q) \<and>
            push_store val (pushCursor_f q) q = Inr (b, q'))"
proof (cases "full q (pushCursor_f q) (popCursorCached_f q)")
  case False
  with assms have "push_store val (pushCursor_f q) q = Inr (b, q')"
    by (simp add: push_def)
  with False push_store_Inr[OF this] show ?thesis by simp
next
  case c: True
  show ?thesis
  proof (cases "full q (pushCursor_f q) (popCursor_f q)")
    case True
    with c assms show ?thesis by (simp add: push_def Let_def)
  next
    case False
    with c assms have
      "push_store val (pushCursor_f q) (q\<lparr>popCursorCached_f := popCursor_f q\<rparr>) = Inr (b, q')"
      by (simp add: push_def Let_def)
    with c False push_store_Inr[OF this] show ?thesis by simp
  qed
qed

lemma pop_cases:
  assumes "pop q = Inr (r, q')"
  shows "(r = None \<and> pushCursorCached_f q = popCursor_f q \<and>
            pushCursor_f q = popCursor_f q \<and> q' = q) \<or>
         (r \<noteq> None \<and> pushCursorCached_f q = popCursor_f q \<and>
            pushCursor_f q \<noteq> popCursor_f q \<and>
            pop_load (popCursor_f q) (q\<lparr>pushCursorCached_f := pushCursor_f q\<rparr>) = Inr (r, q')) \<or>
         (r \<noteq> None \<and> pushCursorCached_f q \<noteq> popCursor_f q \<and>
            pop_load (popCursor_f q) q = Inr (r, q'))"
proof (cases "pushCursorCached_f q = popCursor_f q")
  case False
  with assms have "pop_load (popCursor_f q) q = Inr (r, q')"
    by (simp add: pop_def empty_def)
  with False pop_load_Inr[OF this] show ?thesis by simp
next
  case c: True
  show ?thesis
  proof (cases "pushCursor_f q = popCursor_f q")
    case True
    with c have "q\<lparr>pushCursorCached_f := pushCursor_f q\<rparr> = q" by simp
    with True c assms show ?thesis by (simp add: pop_def Let_def empty_def)
  next
    case False
    with c assms have
      "pop_load (popCursor_f q) (q\<lparr>pushCursorCached_f := pushCursor_f q\<rparr>) = Inr (r, q')"
      by (simp add: pop_def Let_def empty_def)
    with c False pop_load_Inr[OF this] show ?thesis by simp
  qed
qed

text \<open>What a returning push does to the fields.\<close>

lemma push_fields:
  assumes "push val q = Inr (b, q')"
  shows "capacity_f q' = capacity_f q \<and> popCursor_f q' = popCursor_f q \<and>
         pushCursorCached_f q' = pushCursorCached_f q \<and>
         (popCursorCached_f q' = popCursorCached_f q \<or> popCursorCached_f q' = popCursor_f q) \<and>
         pushCursor_f q' =
           (if b then (if pushCursor_f q = capacity_f q then 0 else pushCursor_f q + 1)
            else pushCursor_f q)"
  using push_cases[OF assms]
proof (elim disjE conjE)
  assume "\<not> b" "q' = q\<lparr>popCursorCached_f := popCursor_f q\<rparr>"
  then show ?thesis by simp
next
  assume b: "b" and "push_store val (pushCursor_f q) (q\<lparr>popCursorCached_f := popCursor_f q\<rparr>) = Inr (b, q')"
  from push_store_Inr[OF this(2)] b show ?thesis by simp
next
  assume b: "b" and "push_store val (pushCursor_f q) q = Inr (b, q')"
  from push_store_Inr[OF this(2)] b show ?thesis by simp
qed

lemma pop_fields:
  assumes "pop q = Inr (r, q')"
  shows "capacity_f q' = capacity_f q \<and> pushCursor_f q' = pushCursor_f q \<and>
         popCursorCached_f q' = popCursorCached_f q \<and>
         (pushCursorCached_f q' = pushCursorCached_f q \<or> pushCursorCached_f q' = pushCursor_f q) \<and>
         popCursor_f q' =
           (if r \<noteq> None then (if popCursor_f q = capacity_f q then 0 else popCursor_f q + 1)
            else popCursor_f q)"
  using pop_cases[OF assms]
proof (elim disjE conjE)
  assume "r = None" "q' = q"
  then show ?thesis by simp
next
  assume r: "r \<noteq> None" and "pop_load (popCursor_f q) (q\<lparr>pushCursorCached_f := pushCursor_f q\<rparr>) = Inr (r, q')"
  from pop_load_Inr[OF this(2)] r show ?thesis by simp
next
  assume r: "r \<noteq> None" and "pop_load (popCursor_f q) q = Inr (r, q')"
  from pop_load_Inr[OF this(2)] r show ?thesis by simp
qed

section \<open>Cursors stay in range\<close>

lemma cursors_ok_fresh: "cursors_ok (Fifo4b cap)"
  by (simp add: cursors_ok_def Fifo4b_def)

lemma cursors_ok_push:
  assumes "cursors_ok q" "push val q = Inr (b, q')"
  shows "cursors_ok q'"
proof -
  note f = push_fields[OF assms(2)]
  from assms(1) have "pushCursor_f q \<le> capacity_f q" by (simp add: cursors_ok_def)
  from next_cursor_le[OF this] f have "pushCursor_f q' \<le> capacity_f q"
    using assms(1) by (simp add: cursors_ok_def split: if_splits)
  with f assms(1) show ?thesis by (auto simp: cursors_ok_def)
qed

lemma cursors_ok_pop:
  assumes "cursors_ok q" "pop q = Inr (r, q')"
  shows "cursors_ok q'"
proof -
  note f = pop_fields[OF assms(2)]
  from assms(1) have "popCursor_f q \<le> capacity_f q" by (simp add: cursors_ok_def)
  from next_cursor_le[OF this] f have "popCursor_f q' \<le> capacity_f q"
    using assms(1) by (simp add: cursors_ok_def split: if_splits)
  with f assms(1) show ?thesis by (auto simp: cursors_ok_def)
qed

lemma exec_Cons_Inr:
  assumes "exec (c # cs) q = Inr (outs, q')"
  shows "(\<exists>val b q1 rs. c = Push val \<and> push val q = Inr (b, q1) \<and>
             exec cs q1 = Inr (rs, q') \<and> outs = Pushed b # rs) \<or>
         (\<exists>r q1 rs. c = Pop \<and> pop q = Inr (r, q1) \<and>
             exec cs q1 = Inr (rs, q') \<and> outs = Popped r # rs)"
  using assms by (cases c) (auto split: sum.splits prod.splits)

lemma exec_invariant:
  assumes "exec calls q = Inr (outs, q')" "cursors_ok q"
  shows "cursors_ok q' \<and> capacity_f q' = capacity_f q"
  using assms
proof (induction calls arbitrary: q outs)
  case Nil
  then show ?case by simp
next
  case (Cons c cs)
  from exec_Cons_Inr[OF Cons.prems(1)] show ?case
  proof (elim disjE exE conjE)
    fix val b q1 rs
    assume h: "push val q = Inr (b, q1)" "exec cs q1 = Inr (rs, q')"
    from Cons.IH[OF h(2) cursors_ok_push[OF Cons.prems(2) h(1)]] push_fields[OF h(1)]
    show ?thesis by simp
  next
    fix r q1 rs
    assume h: "pop q = Inr (r, q1)" "exec cs q1 = Inr (rs, q')"
    from Cons.IH[OF h(2) cursors_ok_pop[OF Cons.prems(2) h(1)]] pop_fields[OF h(1)]
    show ?thesis by simp
  qed
qed

lemma reachable_cursors_ok:
  assumes "exec calls (Fifo4b cap) = Inr (outs, q)"
  shows "cursors_ok q \<and> capacity_f q = cap"
  using exec_invariant[OF assms cursors_ok_fresh] by (simp add: Fifo4b_def)

text \<open>
  C5. Both live cursors of a fresh queue lie in \<open>[0, capacity]\<close>, and every returning
  \<open>push\<close> and \<open>pop\<close>, successful or not, keeps them there: a successful push moves the
  push cursor to \<open>(pushCursor + 1) mod (capacity + 1)\<close> and leaves the pop cursor alone, a
  successful pop moves the pop cursor to \<open>(popCursor + 1) mod (capacity + 1)\<close> and leaves
  the push cursor alone, and a failed call moves neither. The remainder is taken on the
  exact integers, so the modulus is \<open>capacity + 1\<close> even where that sum does not fit the
  cursor type.
\<close>

theorem cursors_stay_in_range:
  "pushCursor_f (Fifo4b cap) \<le> cap \<and> popCursor_f (Fifo4b cap) \<le> cap \<and>
   (pushCursor_f q \<le> capacity_f q \<and> popCursor_f q \<le> capacity_f q \<and>
    push val q = Inr (b, q1) \<longrightarrow>
      capacity_f q1 = capacity_f q \<and>
      pushCursor_f q1 \<le> capacity_f q \<and> popCursor_f q1 \<le> capacity_f q \<and>
      popCursor_f q1 = popCursor_f q \<and>
      unat (pushCursor_f q1) =
        (if b then (unat (pushCursor_f q) + 1) mod (unat (capacity_f q) + 1)
         else unat (pushCursor_f q))) \<and>
   (pushCursor_f q \<le> capacity_f q \<and> popCursor_f q \<le> capacity_f q \<and>
    pop q = Inr (r, q2) \<longrightarrow>
      capacity_f q2 = capacity_f q \<and>
      pushCursor_f q2 \<le> capacity_f q \<and> popCursor_f q2 \<le> capacity_f q \<and>
      pushCursor_f q2 = pushCursor_f q \<and>
      unat (popCursor_f q2) =
        (if r \<noteq> None then (unat (popCursor_f q) + 1) mod (unat (capacity_f q) + 1)
         else unat (popCursor_f q)))"
proof (intro conjI impI)
  show "pushCursor_f (Fifo4b cap) \<le> cap" "popCursor_f (Fifo4b cap) \<le> cap"
    by (simp_all add: Fifo4b_def)
next
  assume h: "pushCursor_f q \<le> capacity_f q \<and> popCursor_f q \<le> capacity_f q \<and>
    push val q = Inr (b, q1)"
  then have p: "push val q = Inr (b, q1)" and r: "pushCursor_f q \<le> capacity_f q" by simp_all
  note f = push_fields[OF p]
  from f show "capacity_f q1 = capacity_f q" "popCursor_f q1 = popCursor_f q" by simp_all
  from f h show "popCursor_f q1 \<le> capacity_f q" by simp
  from f next_cursor_le[OF r] r show "pushCursor_f q1 \<le> capacity_f q"
    by (simp split: if_splits)
  from f next_cursor_unat[OF r] show "unat (pushCursor_f q1) =
        (if b then (unat (pushCursor_f q) + 1) mod (unat (capacity_f q) + 1)
         else unat (pushCursor_f q))"
    by (simp split: if_splits)
next
  assume h: "pushCursor_f q \<le> capacity_f q \<and> popCursor_f q \<le> capacity_f q \<and>
    pop q = Inr (r, q2)"
  then have p: "pop q = Inr (r, q2)" and r: "popCursor_f q \<le> capacity_f q" by simp_all
  note f = pop_fields[OF p]
  from f show "capacity_f q2 = capacity_f q" "pushCursor_f q2 = pushCursor_f q" by simp_all
  from f h show "pushCursor_f q2 \<le> capacity_f q" by simp
  from f next_cursor_le[OF r] r show "popCursor_f q2 \<le> capacity_f q"
    by (simp split: if_splits)
  from f next_cursor_unat[OF r] show "unat (popCursor_f q2) =
        (if r \<noteq> None then (unat (popCursor_f q) + 1) mod (unat (capacity_f q) + 1)
         else unat (popCursor_f q))"
    by (simp split: if_splits)
qed


theorem cursors_stay_in_range_witness:
  "pushCursor_f \<lparr>capacity_f = 2 :: 64 word, ring_f = [None, Some (6 :: nat), None], pushCursor_f = 2,
      popCursorCached_f = 0, popCursor_f = 1, pushCursorCached_f = 2\<rparr> \<le> 2 \<and>
   popCursor_f \<lparr>capacity_f = 2 :: 64 word, ring_f = [None, Some (6 :: nat), None], pushCursor_f = 2,
      popCursorCached_f = 0, popCursor_f = 1, pushCursorCached_f = 2\<rparr> \<le> 2 \<and>
   push 7 \<lparr>capacity_f = 2 :: 64 word, ring_f = [None, Some (6 :: nat), None], pushCursor_f = 2,
      popCursorCached_f = 0, popCursor_f = 1, pushCursorCached_f = 2\<rparr> =
     Inr (True, \<lparr>capacity_f = 2, ring_f = [None, Some 6, Some 7], pushCursor_f = 0,
      popCursorCached_f = 1, popCursor_f = 1, pushCursorCached_f = 2\<rparr>) \<and>
   pop \<lparr>capacity_f = 2 :: 64 word, ring_f = [None, Some (6 :: nat), None], pushCursor_f = 2,
      popCursorCached_f = 0, popCursor_f = 1, pushCursorCached_f = 2\<rparr> =
     Inr (Some 6, \<lparr>capacity_f = 2, ring_f = [None, None, None], pushCursor_f = 2,
      popCursorCached_f = 0, popCursor_f = 2, pushCursorCached_f = 2\<rparr>) \<and>
   unat (0 :: 64 word) = (unat (2 :: 64 word) + 1) mod (unat (2 :: 64 word) + 1) \<and>
   unat (2 :: 64 word) = (unat (1 :: 64 word) + 1) mod (unat (2 :: 64 word) + 1)"
  using cursors_stay_in_range [of "2 :: 64 word"
      "\<lparr>capacity_f = 2 :: 64 word, ring_f = [None, Some (6 :: nat), None], pushCursor_f = 2,
        popCursorCached_f = 0, popCursor_f = 1, pushCursorCached_f = 2\<rparr>"
      7 True
      "\<lparr>capacity_f = 2, ring_f = [None, Some 6, Some 7], pushCursor_f = 0,
        popCursorCached_f = 1, popCursor_f = 1, pushCursorCached_f = 2\<rparr>"
      "Some 6"
      "\<lparr>capacity_f = 2, ring_f = [None, None, None], pushCursor_f = 2,
        popCursorCached_f = 0, popCursor_f = 2, pushCursorCached_f = 2\<rparr>"]
  by (simp add: push_def push_store_def pop_def pop_load_def full_def empty_def)

section \<open>A failed call\<close>

lemma failed_push_unchanged:
  assumes ok: "cursors_ok q" and p: "push val q = Inr (False, q')"
  shows "q' = q"
proof -
  from push_cases[OF p] have
    "full q (pushCursor_f q) (popCursorCached_f q) \<and>
     full q (pushCursor_f q) (popCursor_f q) \<and>
     q' = q\<lparr>popCursorCached_f := popCursor_f q\<rparr>" by simp
  then have
    fc: "full q (pushCursor_f q) (popCursorCached_f q)" and
    fl: "full q (pushCursor_f q) (popCursor_f q)" and
    q': "q' = q\<lparr>popCursorCached_f := popCursor_f q\<rparr>" by blast+
  from ok have r: "pushCursor_f q \<le> capacity_f q" "popCursorCached_f q \<le> capacity_f q"
      "popCursor_f q \<le> capacity_f q" by (simp_all add: cursors_ok_def)
  have pos: "0 < capacity_f q"
  proof (rule ccontr)
    assume "\<not> 0 < capacity_f q"
    then have "capacity_f q = 0" by (simp add: word_greater_zero_iff)
    with r have "pushCursor_f q = 0" "popCursor_f q = 0" by simp_all
    with fl show False by (simp add: full_def)
  qed
  from full_iff[OF pos r(1) r(2)] fc
  have "unat (popCursorCached_f q) = (unat (pushCursor_f q) + 1) mod (unat (capacity_f q) + 1)"
    by blast
  moreover from full_iff[OF pos r(1) r(3)] fl
  have "unat (popCursor_f q) = (unat (pushCursor_f q) + 1) mod (unat (capacity_f q) + 1)"
    by blast
  ultimately have "unat (popCursorCached_f q) = unat (popCursor_f q)" by (rule trans[OF _ sym])
  then have "popCursorCached_f q = popCursor_f q" by (simp add: word_unat_eq_iff)
  with q' show ?thesis by simp
qed

lemma failed_pop_unchanged:
  assumes "pop q = Inr (None, q')"
  shows "q' = q"
  using pop_cases[OF assms] by simp

text \<open>
  C7. In every state a fresh queue can reach, a \<open>push\<close> that returns false and a \<open>pop\<close>
  that returns false hand back the very state they were called on: the failed push does
  reload the cached pop cursor, but with the value it already holds.
\<close>

theorem failed_call_leaves_state:
  assumes "exec calls (Fifo4b cap) = Inr (outs, q)"
  shows "(push val q = Inr (False, q1) \<longrightarrow> q1 = q) \<and> (pop q = Inr (None, q2) \<longrightarrow> q2 = q)"
proof (intro conjI impI)
  from reachable_cursors_ok[OF assms] have ok: "cursors_ok q" by simp
  show "q1 = q" if "push val q = Inr (False, q1)"
    using failed_push_unchanged[OF ok that] .
  show "q2 = q" if "pop q = Inr (None, q2)"
    using failed_pop_unchanged[OF that] .
qed

lemma replicate3: "replicate 3 x = [x, x, x]"
  by (simp add: eval_nat_numeral)

theorem failed_call_leaves_state_witness:
  "exec [Push (1 :: nat), Push 2] (Fifo4b (2 :: 64 word)) =
     Inr ([Pushed True, Pushed True],
       \<lparr>capacity_f = 2, ring_f = [Some 1, Some 2, None], pushCursor_f = 2,
        popCursorCached_f = 0, popCursor_f = 0, pushCursorCached_f = 0\<rparr>) \<and>
   push 3 \<lparr>capacity_f = 2 :: 64 word, ring_f = [Some (1 :: nat), Some 2, None], pushCursor_f = 2,
        popCursorCached_f = 0, popCursor_f = 0, pushCursorCached_f = 0\<rparr> =
     Inr (False, \<lparr>capacity_f = 2, ring_f = [Some 1, Some 2, None], pushCursor_f = 2,
        popCursorCached_f = 0, popCursor_f = 0, pushCursorCached_f = 0\<rparr>) \<and>
   exec [] (Fifo4b (2 :: 64 word) :: (nat, 64) Fifo4b) = Inr ([], Fifo4b 2) \<and>
   pop (Fifo4b (2 :: 64 word) :: (nat, 64) Fifo4b) = Inr (None, Fifo4b 2)"
  using failed_call_leaves_state [of "[Push (1 :: nat), Push 2]" "2 :: 64 word"
      "[Pushed True, Pushed True]"
      "\<lparr>capacity_f = 2, ring_f = [Some 1, Some 2, None], pushCursor_f = 2,
        popCursorCached_f = 0, popCursor_f = 0, pushCursorCached_f = 0\<rparr>"
      3
      "\<lparr>capacity_f = 2, ring_f = [Some 1, Some 2, None], pushCursor_f = 2,
        popCursorCached_f = 0, popCursor_f = 0, pushCursorCached_f = 0\<rparr>"
      "Fifo4b 2"]
    failed_call_leaves_state [of "[]" "2 :: 64 word" "[]" "Fifo4b 2" 3 "Fifo4b 2" "Fifo4b 2"]
  by (simp add: Fifo4b_def push_def push_store_def pop_def pop_load_def full_def empty_def replicate3)

section \<open>size, full and empty on cursors in range\<close>

lemma unat_size:
  fixes q :: "('a, 'w::len) Fifo4b"
  assumes pu: "pushCursor_f q \<le> capacity_f q" and po: "popCursor_f q \<le> capacity_f q"
  shows "unat (size_fifo q) =
    (if unat (popCursor_f q) \<le> unat (pushCursor_f q)
     then unat (pushCursor_f q) - unat (popCursor_f q)
     else unat (capacity_f q) + 1 + unat (pushCursor_f q) - unat (popCursor_f q))"
proof (cases "popCursor_f q \<le> pushCursor_f q")
  case True
  then have "unat (pushCursor_f q - popCursor_f q) = unat (pushCursor_f q) - unat (popCursor_f q)"
    by (rule unat_sub)
  with True show ?thesis by (simp add: size_fifo_def word_le_nat_alt)
next
  case False
  let ?P = "unat (pushCursor_f q)" and ?Q = "unat (popCursor_f q)" and ?C = "unat (capacity_f q)"
  from False have lt: "?P < ?Q" by (simp add: word_le_nat_alt)
  from po have QC: "?Q \<le> ?C" by (simp add: word_le_nat_alt)
  have bd: "?C < 2 ^ LENGTH('w)" by (rule unsigned_less)
  from lt QC bd have "?P + 1 < 2 ^ LENGTH('w)" by linarith
  then have s: "unat (pushCursor_f q + 1) = ?P + 1"
    by (simp add: unat_add_lem[THEN iffD1])
  with lt have "pushCursor_f q + 1 \<le> popCursor_f q" by (simp add: word_le_nat_alt)
  then have d: "unat (popCursor_f q - (pushCursor_f q + 1)) = ?Q - (?P + 1)"
    using s by (simp add: unat_sub)
  with QC have "popCursor_f q - (pushCursor_f q + 1) \<le> capacity_f q"
    by (simp add: word_le_nat_alt)
  then have "unat (capacity_f q - (popCursor_f q - (pushCursor_f q + 1))) = ?C - (?Q - (?P + 1))"
    using d by (simp add: unat_sub)
  with False lt QC show ?thesis by (simp add: size_fifo_def)
qed

lemma size_le_capacity:
  assumes "pushCursor_f q \<le> capacity_f q" "popCursor_f q \<le> capacity_f q"
  shows "size_fifo q \<le> capacity_f q"
proof -
  from assms have "unat (pushCursor_f q) \<le> unat (capacity_f q)"
    "unat (popCursor_f q) \<le> unat (capacity_f q)" by (simp_all add: word_le_nat_alt)
  with unat_size[OF assms] have "unat (size_fifo q) \<le> unat (capacity_f q)"
    by (simp split: if_splits)
  then show ?thesis by (simp add: word_le_nat_alt)
qed

lemma empty_iff_size:
  assumes "pushCursor_f q \<le> capacity_f q" "popCursor_f q \<le> capacity_f q"
  shows "empty_fifo q \<longleftrightarrow> size_fifo q = 0"
proof -
  from assms have r: "unat (pushCursor_f q) \<le> unat (capacity_f q)"
    "unat (popCursor_f q) \<le> unat (capacity_f q)" by (simp_all add: word_le_nat_alt)
  have "empty_fifo q \<longleftrightarrow> unat (pushCursor_f q) = unat (popCursor_f q)"
    by (simp add: empty_fifo_def empty_def word_unat_eq_iff)
  also have "\<dots> \<longleftrightarrow> unat (size_fifo q) = 0"
    using unat_size[OF assms] r by (auto split: if_splits)
  also have "\<dots> \<longleftrightarrow> size_fifo q = 0" by (simp add: unat_eq_0)
  finally show ?thesis .
qed

lemma full_iff_size:
  assumes pos: "0 < capacity_f q"
    and pu: "pushCursor_f q \<le> capacity_f q" and po: "popCursor_f q \<le> capacity_f q"
  shows "full_fifo q \<longleftrightarrow> size_fifo q = capacity_f q"
proof -
  let ?P = "unat (pushCursor_f q)" and ?Q = "unat (popCursor_f q)" and ?C = "unat (capacity_f q)"
  from pu po have r: "?P \<le> ?C" "?Q \<le> ?C" by (simp_all add: word_le_nat_alt)
  have "full_fifo q \<longleftrightarrow> ?Q = (?P + 1) mod (?C + 1)"
    unfolding full_fifo_def by (rule full_iff[OF pos pu po])
  also have "\<dots> \<longleftrightarrow> unat (size_fifo q) = ?C"
  proof (cases "?P = ?C")
    case True
    then have m: "(?P + 1) mod (?C + 1) = 0" by simp
    from True r unat_size[OF pu po] have "unat (size_fifo q) = ?C - ?Q" by simp
    with r m show ?thesis by auto
  next
    case False
    with r have "?P + 1 < ?C + 1" by simp
    then have m: "(?P + 1) mod (?C + 1) = ?P + 1" by simp
    show ?thesis
    proof (cases "?Q \<le> ?P")
      case True
      with unat_size[OF pu po] have "unat (size_fifo q) = ?P - ?Q" by simp
      with True False r m show ?thesis by auto
    next
      case F: False
      with unat_size[OF pu po] have "unat (size_fifo q) = ?C + 1 + ?P - ?Q" by simp
      with F r m show ?thesis by auto
    qed
  qed
  also have "\<dots> \<longleftrightarrow> size_fifo q = capacity_f q" by (simp add: word_unat_eq_iff)
  finally show ?thesis .
qed


text \<open>
  C4. In every state that push and pop calls reach from a fresh queue of positive
  capacity, \<open>full()\<close> and \<open>empty()\<close> are not both true, \<open>empty()\<close> holds exactly when
  \<open>size()\<close> is 0, and \<open>full()\<close> holds exactly when \<open>size()\<close> is \<open>capacity()\<close>.
\<close>

theorem full_empty_size_agree:
  assumes "0 < cap" and "exec calls (Fifo4b cap) = Inr (outs, q)"
  shows "capacity q = cap \<and> pushCursor_f q \<le> cap \<and> popCursor_f q \<le> cap \<and>
         \<not> (full_fifo q \<and> empty_fifo q) \<and>
         (empty_fifo q \<longleftrightarrow> size_fifo q = 0) \<and>
         (full_fifo q \<longleftrightarrow> size_fifo q = capacity q)"
proof -
  from reachable_cursors_ok[OF assms(2)] have c: "capacity_f q = cap"
    and pu: "pushCursor_f q \<le> capacity_f q" and po: "popCursor_f q \<le> capacity_f q"
    by (auto simp: cursors_ok_def)
  from assms(1) c have pos: "0 < capacity_f q" by simp
  note e = empty_iff_size[OF pu po] and f = full_iff_size[OF pos pu po]
  from pos have "capacity_f q \<noteq> 0" by simp
  with e f have "\<not> (full_fifo q \<and> empty_fifo q)" by auto
  with e f c pu po show ?thesis by (simp add: capacity_def)
qed

theorem full_empty_size_agree_witness:
  "0 < (2 :: 64 word) \<and>
   exec [Push (1 :: nat), Push 2] (Fifo4b (2 :: 64 word)) =
     Inr ([Pushed True, Pushed True],
       \<lparr>capacity_f = 2, ring_f = [Some 1, Some 2, None], pushCursor_f = 2,
        popCursorCached_f = 0, popCursor_f = 0, pushCursorCached_f = 0\<rparr>) \<and>
   full_fifo \<lparr>capacity_f = 2 :: 64 word, ring_f = [Some (1 :: nat), Some 2, None], pushCursor_f = 2,
        popCursorCached_f = 0, popCursor_f = 0, pushCursorCached_f = 0\<rparr> \<and>
   \<not> empty_fifo \<lparr>capacity_f = 2 :: 64 word, ring_f = [Some (1 :: nat), Some 2, None], pushCursor_f = 2,
        popCursorCached_f = 0, popCursor_f = 0, pushCursorCached_f = 0\<rparr> \<and>
   size_fifo \<lparr>capacity_f = 2 :: 64 word, ring_f = [Some (1 :: nat), Some 2, None], pushCursor_f = 2,
        popCursorCached_f = 0, popCursor_f = 0, pushCursorCached_f = 0\<rparr> = 2"
  using full_empty_size_agree [of "2 :: 64 word" "[Push (1 :: nat), Push 2]"
      "[Pushed True, Pushed True]"
      "\<lparr>capacity_f = 2, ring_f = [Some 1, Some 2, None], pushCursor_f = 2,
        popCursorCached_f = 0, popCursor_f = 0, pushCursorCached_f = 0\<rparr>"]
  by (simp add: Fifo4b_def push_def push_store_def full_def full_fifo_def empty_fifo_def
        empty_def size_fifo_def capacity_def replicate3)

section \<open>The ring against its history\<close>

lemma mod_eq_near:
  fixes a b M :: nat
  assumes "a \<le> b" "b < a + M" "a mod M = b mod M"
  shows "a = b"
proof -
  from assms(1,3) have "M dvd b - a" by (metis mod_eq_dvd_iff_nat)
  moreover from assms(1,2) have "b - a < M" by simp
  ultimately have "b - a = 0" by (meson dvd_imp_le not_less zero_less_iff_neq_zero)
  with assms(1) show ?thesis by simp
qed

lemma mod_eq_next:
  fixes c n C :: nat
  assumes "c \<le> n" "n \<le> c + C"
  shows "c mod (C + 1) = (n + 1) mod (C + 1) \<longleftrightarrow> n = c + C"
proof
  assume "n = c + C"
  then have "n + 1 = c + (C + 1)" by simp
  then have "(n + 1) mod (C + 1) = (c + (C + 1)) mod (C + 1)" by (rule arg_cong)
  also have "\<dots> = c mod (C + 1)" by (rule mod_add_self2)
  finally show "c mod (C + 1) = (n + 1) mod (C + 1)" by (rule sym)
next
  assume e: "c mod (C + 1) = (n + 1) mod (C + 1)"
  show "n = c + C"
  proof (rule ccontr)
    assume "n \<noteq> c + C"
    with assms have "n + 1 < c + (C + 1)" by simp
    from mod_eq_near[OF _ this e] assms(1) show False by simp
  qed
qed

lemma word_le_of_unat_mod:
  fixes x cap :: "'w::len word"
  assumes "unat x = n mod (unat cap + 1)"
  shows "x \<le> cap"
proof -
  have "n mod (unat cap + 1) < unat cap + 1" by simp
  with assms have "unat x \<le> unat cap" by simp
  then show ?thesis by (simp add: word_le_nat_alt)
qed

lemma tracksD:
  fixes q :: "('a, 'w::len) Fifo4b"
  assumes "tracks xs nq c k q"
  shows "0 < unat (capacity_f q)"
    and "unat (capacity_f q) + 1 < 2 ^ LENGTH('w)"
    and "length (ring_f q) = unat (capacity_f q) + 1"
    and "length xs \<le> unat (capacity_f q)"
    and "unat (pushCursor_f q) = (nq + length xs) mod (unat (capacity_f q) + 1)"
    and "unat (popCursor_f q) = nq mod (unat (capacity_f q) + 1)"
    and "unat (popCursorCached_f q) = c mod (unat (capacity_f q) + 1)"
    and "c \<le> nq" and "nq + length xs \<le> c + unat (capacity_f q)"
    and "unat (pushCursorCached_f q) = k mod (unat (capacity_f q) + 1)"
    and "nq \<le> k" and "k \<le> nq + length xs"
    and "\<And>i. i < length xs \<Longrightarrow>
           ring_f q ! ((nq + i) mod (unat (capacity_f q) + 1)) = Some (xs ! i)"
  using assms unfolding tracks_def Let_def by simp_all

lemma tracksI:
  fixes q :: "('a, 'w::len) Fifo4b"
  assumes "0 < unat (capacity_f q)"
    and "unat (capacity_f q) + 1 < 2 ^ LENGTH('w)"
    and "length (ring_f q) = unat (capacity_f q) + 1"
    and "length xs \<le> unat (capacity_f q)"
    and "unat (pushCursor_f q) = (nq + length xs) mod (unat (capacity_f q) + 1)"
    and "unat (popCursor_f q) = nq mod (unat (capacity_f q) + 1)"
    and "unat (popCursorCached_f q) = c mod (unat (capacity_f q) + 1)"
    and "c \<le> nq" and "nq + length xs \<le> c + unat (capacity_f q)"
    and "unat (pushCursorCached_f q) = k mod (unat (capacity_f q) + 1)"
    and "nq \<le> k" and "k \<le> nq + length xs"
    and "\<And>i. i < length xs \<Longrightarrow>
           ring_f q ! ((nq + i) mod (unat (capacity_f q) + 1)) = Some (xs ! i)"
  shows "tracks xs nq c k q"
  using assms unfolding tracks_def Let_def by simp

lemma tracks_cursors:
  assumes "tracks xs nq c k q"
  shows "0 < capacity_f q" "pushCursor_f q \<le> capacity_f q" "popCursor_f q \<le> capacity_f q"
    "popCursorCached_f q \<le> capacity_f q" "pushCursorCached_f q \<le> capacity_f q"
proof -
  note t = tracksD[OF assms]
  from t(1) show "0 < capacity_f q" by (simp add: word_less_nat_alt)
  from t(5) show "pushCursor_f q \<le> capacity_f q" by (rule word_le_of_unat_mod)
  from t(6) show "popCursor_f q \<le> capacity_f q" by (rule word_le_of_unat_mod)
  from t(7) show "popCursorCached_f q \<le> capacity_f q" by (rule word_le_of_unat_mod)
  from t(10) show "pushCursorCached_f q \<le> capacity_f q" by (rule word_le_of_unat_mod)
qed

lemma tracks_fresh:
  fixes cap :: "'w::len word"
  assumes "0 < cap" "cap + 1 \<noteq> 0"
  shows "tracks [] 0 0 0 (Fifo4b cap :: ('a, 'w) Fifo4b)"
proof -
  from assms(2) unatSuc[of cap] have s: "unat (cap + 1) = unat cap + 1"
    by (simp add: add.commute)
  have "unat (cap + 1) < 2 ^ LENGTH('w)" by (rule unsigned_less)
  with s have b: "unat cap + 1 < 2 ^ LENGTH('w)" by simp
  from assms(1) have p: "0 < unat cap" by (simp add: word_less_nat_alt)
  show ?thesis
    by (rule tracksI) (use s b p in \<open>simp_all add: Fifo4b_def\<close>)
qed

lemma tracks_full_cached:
  assumes "tracks xs nq c k q"
  shows "full q (pushCursor_f q) (popCursorCached_f q) \<longleftrightarrow>
         nq + length xs = c + unat (capacity_f q)"
proof -
  note t = tracksD[OF assms] and r = tracks_cursors[OF assms]
  let ?M = "unat (capacity_f q) + 1"
  have "full q (pushCursor_f q) (popCursorCached_f q) \<longleftrightarrow>
        unat (popCursorCached_f q) = (unat (pushCursor_f q) + 1) mod ?M"
    by (rule full_iff[OF r(1) r(2) r(4)])
  also have "\<dots> \<longleftrightarrow> c mod ?M = ((nq + length xs) + 1) mod ?M"
    by (simp add: t(5) t(7) mod_Suc_eq)
  also have "\<dots> \<longleftrightarrow> nq + length xs = c + unat (capacity_f q)"
    by (rule mod_eq_next) (use t(8) t(9) in simp_all)
  finally show ?thesis .
qed

lemma tracks_refresh_pop:
  assumes "tracks xs nq c k q"
  shows "tracks xs nq nq k (q\<lparr>popCursorCached_f := popCursor_f q\<rparr>)"
proof -
  note t = tracksD[OF assms]
  show ?thesis
    by (rule tracksI) (use t in simp_all)
qed

lemma tracks_refresh_push:
  assumes "tracks xs nq c k q"
  shows "tracks xs nq c (nq + length xs) (q\<lparr>pushCursorCached_f := pushCursor_f q\<rparr>)"
proof -
  note t = tracksD[OF assms]
  show ?thesis
    by (rule tracksI) (use t in simp_all)
qed

lemma tracks_empty_cached:
  assumes "tracks xs nq c k q"
  shows "empty (pushCursorCached_f q) (popCursor_f q) \<longleftrightarrow> k = nq"
proof -
  note t = tracksD[OF assms]
  let ?M = "unat (capacity_f q) + 1"
  have "empty (pushCursorCached_f q) (popCursor_f q) \<longleftrightarrow> nq mod ?M = k mod ?M"
    by (auto simp: empty_def word_unat_eq_iff t(6) t(10))
  also have "\<dots> \<longleftrightarrow> k = nq"
  proof
    assume "nq mod ?M = k mod ?M"
    from mod_eq_near[OF t(11) _ this] t(12) t(4) show "k = nq" by simp
  qed simp
  finally show ?thesis .
qed


lemma tracks_push_store:
  assumes tr: "tracks xs nq c k q" and room: "nq + length xs < c + unat (capacity_f q)"
  shows "\<exists>q'. push_store val (pushCursor_f q) q = Inr (True, q') \<and>
              capacity_f q' = capacity_f q \<and> tracks (xs @ [val]) nq c k q'"
proof -
  note t = tracksD[OF tr] and r = tracks_cursors[OF tr]
  let ?M = "unat (capacity_f q) + 1"
  let ?P = "unat (pushCursor_f q)"
  let ?q' = "q\<lparr>ring_f := (ring_f q)[?P := Some val],
               pushCursor_f := (if pushCursor_f q = capacity_f q then 0 else pushCursor_f q + 1)\<rparr>"
  have P: "?P < length (ring_f q)" by (simp add: t(3) t(5))
  then have st: "push_store val (pushCursor_f q) q = Inr (True, ?q')"
    by (simp add: push_store_def)
  have nx: "unat (pushCursor_f ?q') = (nq + length (xs @ [val])) mod ?M"
    using next_cursor_unat[OF r(2)] by (simp add: t(5) mod_Suc_eq)
  have ring: "ring_f ?q' ! ((nq + i) mod ?M) = Some ((xs @ [val]) ! i)"
    if i: "i < length (xs @ [val])" for i
  proof (cases "i < length xs")
    case True
    have "(nq + i) mod ?M \<noteq> (nq + length xs) mod ?M"
    proof
      assume "(nq + i) mod ?M = (nq + length xs) mod ?M"
      from mod_eq_near[OF _ _ this] True t(4) show False by simp
    qed
    then have "ring_f ?q' ! ((nq + i) mod ?M) = ring_f q ! ((nq + i) mod ?M)"
      by (simp add: t(5))
    with t(13)[OF True] True show ?thesis by (simp add: nth_append)
  next
    case False
    with i have "i = length xs" by simp
    with P show ?thesis by (simp add: t(5))
  qed
  have "tracks (xs @ [val]) nq c k ?q'"
  proof (rule tracksI)
    show "unat (pushCursor_f ?q') = (nq + length (xs @ [val])) mod (unat (capacity_f ?q') + 1)"
      using nx by simp
    show "length (xs @ [val]) \<le> unat (capacity_f ?q')" using room t(8) by simp
    show "nq + length (xs @ [val]) \<le> c + unat (capacity_f ?q')" using room by simp
    show "ring_f ?q' ! ((nq + i) mod (unat (capacity_f ?q') + 1)) = Some ((xs @ [val]) ! i)"
      if "i < length (xs @ [val])" for i using ring[OF that] by simp
  qed (use t in simp_all)
  with st show ?thesis by simp
qed

lemma tracks_pop_load:
  assumes tr: "tracks (x # xs) nq c k q" and more: "nq < k"
  shows "\<exists>q'. pop_load (popCursor_f q) q = Inr (Some x, q') \<and>
              capacity_f q' = capacity_f q \<and> tracks xs (nq + 1) c k q'"
proof -
  note t = tracksD[OF tr] and r = tracks_cursors[OF tr]
  let ?M = "unat (capacity_f q) + 1"
  let ?Q = "unat (popCursor_f q)"
  let ?q' = "q\<lparr>ring_f := (ring_f q)[?Q := None],
               popCursor_f := (if popCursor_f q = capacity_f q then 0 else popCursor_f q + 1)\<rparr>"
  have Q: "?Q < length (ring_f q)" by (simp add: t(3) t(6))
  from t(13)[of 0] have hd: "ring_f q ! ?Q = Some x" by (simp add: t(6))
  with Q have ld: "pop_load (popCursor_f q) q = Inr (Some x, ?q')"
    by (simp add: pop_load_def)
  have nx: "unat (popCursor_f ?q') = (nq + 1) mod ?M"
    using next_cursor_unat[OF r(3)] by (simp add: t(6) mod_Suc_eq)
  have ring: "ring_f ?q' ! ((nq + 1 + i) mod ?M) = Some (xs ! i)" if i: "i < length xs" for i
  proof -
    have "nq mod ?M \<noteq> (nq + 1 + i) mod ?M"
    proof
      assume "nq mod ?M = (nq + 1 + i) mod ?M"
      from mod_eq_near[OF _ _ this] i t(4) show False by simp
    qed
    then have "ring_f ?q' ! ((nq + 1 + i) mod ?M) = ring_f q ! ((nq + (i + 1)) mod ?M)"
      by (simp add: t(6) add.assoc)
    also from i have "\<dots> = Some ((x # xs) ! (i + 1))" by (intro t(13)) simp
    finally show ?thesis by simp
  qed
  have "tracks xs (nq + 1) c k ?q'"
  proof (rule tracksI)
    show "unat (popCursor_f ?q') = (nq + 1) mod (unat (capacity_f ?q') + 1)"
      using nx by simp
    show "ring_f ?q' ! ((nq + 1 + i) mod (unat (capacity_f ?q') + 1)) = Some (xs ! i)"
      if "i < length xs" for i using ring[OF that] by simp
  qed (use t more in simp_all)
  with ld show ?thesis by simp
qed


lemma push_unfold:
  "push val q =
     (if full q (pushCursor_f q) (popCursorCached_f q)
      then if full q (pushCursor_f q) (popCursor_f q)
           then Inr (False, q\<lparr>popCursorCached_f := popCursor_f q\<rparr>)
           else push_store val (pushCursor_f q) (q\<lparr>popCursorCached_f := popCursor_f q\<rparr>)
      else push_store val (pushCursor_f q) q)"
  by (simp add: push_def Let_def)

lemma pop_unfold:
  "pop q =
     (if pushCursorCached_f q = popCursor_f q
      then if pushCursor_f q = popCursor_f q
           then Inr (None, q\<lparr>pushCursorCached_f := pushCursor_f q\<rparr>)
           else pop_load (popCursor_f q) (q\<lparr>pushCursorCached_f := pushCursor_f q\<rparr>)
      else pop_load (popCursor_f q) q)"
  by (simp add: pop_def Let_def empty_def)

lemma tracks_push:
  assumes tr: "tracks xs nq c k q"
  shows "\<exists>q' c'. push val q = Inr (length xs < unat (capacity_f q), q') \<and>
           capacity_f q' = capacity_f q \<and>
           tracks (if length xs < unat (capacity_f q) then xs @ [val] else xs) nq c' k q'"
proof (cases "full q (pushCursor_f q) (popCursorCached_f q)")
  case False
  note t = tracksD[OF tr]
  from False tracks_full_cached[OF tr] t(9)
  have room: "nq + length xs < c + unat (capacity_f q)" by simp
  with t(8) have lt: "length xs < unat (capacity_f q)" by simp
  from tracks_push_store[OF tr room, of val] obtain q' where
    "push_store val (pushCursor_f q) q = Inr (True, q')" "capacity_f q' = capacity_f q"
    "tracks (xs @ [val]) nq c k q'" by blast
  with False lt show ?thesis by (auto simp: push_unfold)
next
  case True
  let ?q1 = "q\<lparr>popCursorCached_f := popCursor_f q\<rparr>"
  have tr1: "tracks xs nq nq k ?q1" by (rule tracks_refresh_pop[OF tr])
  note t1 = tracksD[OF tr1]
  from tracks_full_cached[OF tr1]
  have fl: "full q (pushCursor_f q) (popCursor_f q) \<longleftrightarrow> length xs = unat (capacity_f q)"
    by simp
  show ?thesis
  proof (cases "length xs = unat (capacity_f q)")
    case eq: True
    with fl True have "push val q = Inr (False, ?q1)" by (simp add: push_unfold)
    with eq tr1 show ?thesis by auto
  next
    case ne: False
    with t1(4) have lt: "length xs < unat (capacity_f q)" by simp
    then have room: "nq + length xs < nq + unat (capacity_f ?q1)" by simp
    from tracks_push_store[OF tr1 room, of val] obtain q' where
      "push_store val (pushCursor_f q) ?q1 = Inr (True, q')" "capacity_f q' = capacity_f q"
      "tracks (xs @ [val]) nq nq k q'" by auto
    with True fl ne lt show ?thesis by (auto simp: push_unfold)
  qed
qed

lemma tracks_pop:
  assumes tr: "tracks xs nq c k q"
  shows "\<exists>q' k'. pop q = Inr (case xs of [] \<Rightarrow> None | x # _ \<Rightarrow> Some x, q') \<and>
           capacity_f q' = capacity_f q \<and>
           tracks (tl xs) (nq + (if xs = [] then 0 else 1)) c k' q'"
proof (cases "pushCursorCached_f q = popCursor_f q")
  case False
  note t = tracksD[OF tr]
  from False tracks_empty_cached[OF tr] t(11) have more: "nq < k" by (simp add: empty_def)
  with t(12) obtain x xs' where xs: "xs = x # xs'" by (cases xs) auto
  from tracks_pop_load[OF tr[unfolded xs] more] obtain q' where
    "pop_load (popCursor_f q) q = Inr (Some x, q')" "capacity_f q' = capacity_f q"
    "tracks xs' (nq + 1) c k q'" by blast
  with False xs show ?thesis by (auto simp: pop_unfold)
next
  case True
  let ?q1 = "q\<lparr>pushCursorCached_f := pushCursor_f q\<rparr>"
  have tr1: "tracks xs nq c (nq + length xs) ?q1" by (rule tracks_refresh_push[OF tr])
  from tracks_empty_cached[OF tr1]
  have em: "pushCursor_f q = popCursor_f q \<longleftrightarrow> xs = []" by (simp add: empty_def)
  show ?thesis
  proof (cases xs)
    case Nil
    with em True have "pop q = Inr (None, ?q1)" by (simp add: pop_unfold)
    with Nil tr1 show ?thesis by auto
  next
    case (Cons x xs')
    then have more: "nq < nq + length xs" by simp
    from tracks_pop_load[OF tr1[unfolded Cons] more[unfolded Cons]] obtain q' where
      "pop_load (popCursor_f q) ?q1 = Inr (Some x, q')" "capacity_f q' = capacity_f q"
      "tracks xs' (nq + 1) c (nq + length (x # xs')) q'" by auto
    with True em Cons show ?thesis by (auto simp: pop_unfold)
  qed
qed


section \<open>Runs of calls against the bounded queue\<close>

lemma tracks_exec:
  assumes "tracks xs nq c k q"
  shows "\<exists>q' nq' c' k'.
           exec calls q = Inr (fst (queue_exec (unat (capacity_f q)) calls xs), q') \<and>
           capacity_f q' = capacity_f q \<and>
           tracks (snd (queue_exec (unat (capacity_f q)) calls xs)) nq' c' k' q'"
  using assms
proof (induction calls arbitrary: xs nq c k q)
  case Nil
  then show ?case by auto
next
  case (Cons a cs)
  let ?C = "unat (capacity_f q)"
  show ?case
  proof (cases a)
    case (Push val)
    let ?ys = "if length xs < ?C then xs @ [val] else xs"
    from tracks_push[OF Cons.prems, of val] obtain q1 c1 where
      p: "push val q = Inr (length xs < ?C, q1)" and cap: "capacity_f q1 = capacity_f q"
      and tr: "tracks ?ys nq c1 k q1" by blast
    from Cons.IH[OF tr] cap obtain q' nq' c' k' where
      e: "exec cs q1 = Inr (fst (queue_exec ?C cs ?ys), q')" and
      cap': "capacity_f q' = capacity_f q" and
      tr': "tracks (snd (queue_exec ?C cs ?ys)) nq' c' k' q'" by auto
    have "exec (a # cs) q = Inr (fst (queue_exec ?C (a # cs) xs), q')"
      using Push p e by (simp split: prod.splits)
    moreover have "snd (queue_exec ?C (a # cs) xs) = snd (queue_exec ?C cs ?ys)"
      using Push by (simp split: prod.splits)
    with tr' have "tracks (snd (queue_exec ?C (a # cs) xs)) nq' c' k' q'" by (simp only:)
    ultimately show ?thesis using cap' by blast
  next
    case Pop
    let ?r = "case xs of [] \<Rightarrow> None | x # _ \<Rightarrow> Some x"
    from tracks_pop[OF Cons.prems] obtain q1 k1 where
      p: "pop q = Inr (?r, q1)" and cap: "capacity_f q1 = capacity_f q"
      and tr: "tracks (tl xs) (nq + (if xs = [] then 0 else 1)) c k1 q1" by blast
    from Cons.IH[OF tr] cap obtain q' nq' c' k' where
      e: "exec cs q1 = Inr (fst (queue_exec ?C cs (tl xs)), q')" and
      cap': "capacity_f q' = capacity_f q" and
      tr': "tracks (snd (queue_exec ?C cs (tl xs))) nq' c' k' q'" by auto
    have "exec (a # cs) q = Inr (fst (queue_exec ?C (a # cs) xs), q')"
      using Pop p e by (cases xs) (simp_all split: prod.splits)
    moreover have "snd (queue_exec ?C (a # cs) xs) = snd (queue_exec ?C cs (tl xs))"
      using Pop by (cases xs) (simp_all split: prod.splits)
    with tr' have "tracks (snd (queue_exec ?C (a # cs) xs)) nq' c' k' q'" by (simp only:)
    ultimately show ?thesis using cap' by blast
  qed
qed

lemma fresh_exec:
  fixes cap :: "'w::len word"
  assumes "0 < cap" "cap + 1 \<noteq> 0"
  shows "\<exists>(q :: ('a, 'w) Fifo4b) nq c k.
           exec calls (Fifo4b cap) = Inr (fst (queue_exec (unat cap) calls []), q) \<and>
           capacity_f q = cap \<and>
           tracks (snd (queue_exec (unat cap) calls [])) nq c k q"
  using tracks_exec[OF tracks_fresh[OF assms], of calls] by (simp add: Fifo4b_def)

lemma tracks_size:
  assumes tr: "tracks xs nq c k q"
  shows "unat (size_fifo q) = length xs"
proof -
  note t = tracksD[OF tr] and r = tracks_cursors[OF tr]
  let ?M = "unat (capacity_f q) + 1"
  let ?P = "unat (pushCursor_f q)" and ?Q = "unat (popCursor_f q)"
  have Q: "?Q < ?M" by (simp add: t(6))
  have P: "?P = (?Q + length xs) mod ?M" by (simp add: t(5) t(6) mod_add_left_eq)
  show ?thesis
  proof (cases "?Q + length xs < ?M")
    case True
    with P have "?P = ?Q + length xs" by simp
    with unat_size[OF r(2) r(3)] show ?thesis by simp
  next
    case False
    then have "(?Q + length xs) mod ?M = ?Q + length xs - ?M"
      using Q t(4) by (simp add: mod_if)
    with P False have Pv: "?P + ?M = ?Q + length xs" by simp
    with t(4) have lt: "?P < ?Q" by simp
    with unat_size[OF r(2) r(3)]
    have "unat (size_fifo q) = unat (capacity_f q) + 1 + ?P - ?Q" by simp
    with Pv show ?thesis by simp
  qed
qed

lemma tracks_drain:
  assumes "tracks xs nq c k q" "length xs \<le> n"
  shows "drain n q = xs"
  using assms
proof (induction n arbitrary: xs nq c k q)
  case 0
  then show ?case by simp
next
  case (Suc n)
  from tracks_pop[OF Suc.prems(1)] obtain q' k' where
    p: "pop q = Inr (case xs of [] \<Rightarrow> None | x # _ \<Rightarrow> Some x, q')" and
    tr: "tracks (tl xs) (nq + (if xs = [] then 0 else 1)) c k' q'" by blast
  show ?case
  proof (cases xs)
    case Nil
    with p show ?thesis by simp
  next
    case (Cons x xs')
    with Suc.prems(2) have "length (tl xs) \<le> n" by simp
    from Suc.IH[OF tr this] p Cons show ?thesis by simp
  qed
qed

subsection \<open>Facts about the bounded queue\<close>

lemma queue_exec_fifo:
  assumes "queue_exec C calls xs = (outs, ys)"
  shows "xs @ pushed calls outs = popped outs @ ys"
  using assms
proof (induction calls arbitrary: xs outs ys)
  case Nil
  then show ?case by simp
next
  case (Cons a cs)
  show ?case
  proof (cases a)
    case (Push val)
    show ?thesis
    proof (cases "length xs < C")
      case True
      obtain rs zs where r: "queue_exec C cs (xs @ [val]) = (rs, zs)" by force
      with Cons.prems Push True have "outs = Pushed True # rs" "ys = zs" by simp_all
      with Cons.IH[OF r] Push show ?thesis by simp
    next
      case False
      obtain rs zs where r: "queue_exec C cs xs = (rs, zs)" by force
      with Cons.prems Push False have "outs = Pushed False # rs" "ys = zs" by simp_all
      with Cons.IH[OF r] Push show ?thesis by simp
    qed
  next
    case Pop
    show ?thesis
    proof (cases xs)
      case Nil
      obtain rs zs where r: "queue_exec C cs [] = (rs, zs)" by force
      with Cons.prems Pop Nil have "outs = Popped None # rs" "ys = zs" by simp_all
      with Cons.IH[OF r] Pop Nil show ?thesis by simp
    next
      case (Cons x xs')
      obtain rs zs where r: "queue_exec C cs xs' = (rs, zs)" by force
      with Cons.prems Pop Cons have "outs = Popped (Some x) # rs" "ys = zs" by simp_all
      with Cons.IH[OF r] Pop Cons show ?thesis by simp
    qed
  qed
qed

lemma queue_exec_count:
  assumes "queue_exec C calls xs = (outs, ys)"
  shows "length xs + num_pushed outs = num_popped outs + length ys"
  using assms
proof (induction calls arbitrary: xs outs ys)
  case Nil
  then show ?case by simp
next
  case (Cons a cs)
  show ?case
  proof (cases a)
    case (Push val)
    show ?thesis
    proof (cases "length xs < C")
      case True
      obtain rs zs where r: "queue_exec C cs (xs @ [val]) = (rs, zs)" by force
      with Cons.prems Push True have "outs = Pushed True # rs" "ys = zs" by simp_all
      with Cons.IH[OF r] show ?thesis by simp
    next
      case False
      obtain rs zs where r: "queue_exec C cs xs = (rs, zs)" by force
      with Cons.prems Push False have "outs = Pushed False # rs" "ys = zs" by simp_all
      with Cons.IH[OF r] show ?thesis by simp
    qed
  next
    case Pop
    show ?thesis
    proof (cases xs)
      case Nil
      obtain rs zs where r: "queue_exec C cs [] = (rs, zs)" by force
      with Cons.prems Pop Nil have "outs = Popped None # rs" "ys = zs" by simp_all
      with Cons.IH[OF r] Nil show ?thesis by simp
    next
      case (Cons x xs')
      obtain rs zs where r: "queue_exec C cs xs' = (rs, zs)" by force
      with Cons.prems Pop Cons have "outs = Popped (Some x) # rs" "ys = zs" by simp_all
      with Cons.IH[OF r] Cons show ?thesis by simp
    qed
  qed
qed

section \<open>First in, first out\<close>

lemma exec_length:
  assumes "exec calls q = Inr (outs, q')"
  shows "length outs = length calls"
  using assms
proof (induction calls arbitrary: q outs)
  case Nil
  then show ?case by simp
next
  case (Cons a cs)
  from exec_Cons_Inr[OF Cons.prems] Cons.IH show ?case by auto
qed

text \<open>A run on capacity 2 (3 slots): full after two pushes, empty after three pops.\<close>

lemma capacity_two_run:
  "exec [Push CHR ''A'', Push CHR ''B'', Push CHR ''C'', Pop, Push CHR ''C'', Pop, Pop, Pop]
     (Fifo4b (2 :: 64 word)) =
   Inr ([Pushed True, Pushed True, Pushed False, Popped (Some CHR ''A''), Pushed True,
         Popped (Some CHR ''B''), Popped (Some CHR ''C''), Popped None],
     \<lparr>capacity_f = 2, ring_f = [None, None, None], pushCursor_f = 0,
      popCursorCached_f = 1, popCursor_f = 0, pushCursorCached_f = 0\<rparr>)"
  by code_simp

text \<open>
  C1. On a fresh queue of positive capacity whose \<open>capacity + 1\<close> slots were allocated
  (the sum did not wrap to 0 in the cursor type), every finite sequence of push and pop
  calls runs without fault, and the values pushed successfully, in call order, are
  exactly the values popped so far, in call order, followed by the values that popping
  the queue empty hands out next: nothing is lost, duplicated or reordered. The one
  positive capacity left out is the largest the cursor type holds: there \<open>capacity + 1\<close>
  wraps to 0, no slot is allocated, and a run with a push faults (last section).
\<close>

theorem pops_return_pushes_in_order:
  fixes cap :: "'w::len word"
  assumes "0 < cap" and "cap + 1 \<noteq> 0"
  shows "\<exists>outs (q :: ('a, 'w) Fifo4b).
           exec calls (Fifo4b cap) = Inr (outs, q) \<and> length outs = length calls \<and>
           pushed calls outs = popped outs @ drain (unat cap) q"
proof -
  obtain outs ys where qe: "queue_exec (unat cap) calls [] = (outs, ys)" by force
  from fresh_exec[OF assms, of calls] qe obtain q :: "('a, 'w) Fifo4b" and nq c k where
    e: "exec calls (Fifo4b cap) = Inr (outs, q)" and cq: "capacity_f q = cap"
    and tr: "tracks ys nq c k q" by auto
  from tracksD(4)[OF tr] cq have "length ys \<le> unat cap" by simp
  from tracks_drain[OF tr this] have "drain (unat cap) q = ys" .
  with queue_exec_fifo[OF qe] have "pushed calls outs = popped outs @ drain (unat cap) q"
    by simp
  with e exec_length[OF e] show ?thesis by blast
qed

theorem pops_return_pushes_in_order_witness:
  "0 < (4 :: 64 word) \<and> (4 :: 64 word) + 1 \<noteq> 0 \<and>
   (\<exists>outs (q :: (nat, 64) Fifo4b).
      exec (concat (map (\<lambda>i. [Push i, Pop]) [0..<20])) (Fifo4b 4) = Inr (outs, q) \<and>
      length outs = length (concat (map (\<lambda>i. [Push i, Pop]) [0..<20 :: nat])) \<and>
      pushed (concat (map (\<lambda>i. [Push i, Pop]) [0..<20])) outs =
        popped outs @ drain (unat (4 :: 64 word)) q) \<and>
   exec (concat (map (\<lambda>i. [Push i, Pop]) [0..<20])) (Fifo4b (4 :: 64 word)) =
     Inr (concat (map (\<lambda>i. [Pushed True, Popped (Some i)]) [0..<20]),
       \<lparr>capacity_f = 4, ring_f = [None, None, None, None, None], pushCursor_f = 0,
        popCursorCached_f = 1, popCursor_f = 0, pushCursorCached_f = 0\<rparr>) \<and>
   popped (concat (map (\<lambda>i. [Pushed True, Popped (Some i)]) [0..<20 :: nat])) = [0..<20]"
proof -
  have h: "0 < (4 :: 64 word)" "(4 :: 64 word) + 1 \<noteq> 0" by simp_all
  note t = pops_return_pushes_in_order [OF h, where 'a = nat,
      of "concat (map (\<lambda>i. [Push i, Pop]) [0..<20])"]
  have e: "exec (concat (map (\<lambda>i. [Push i, Pop]) [0..<20])) (Fifo4b (4 :: 64 word)) =
     Inr (concat (map (\<lambda>i. [Pushed True, Popped (Some i)]) [0..<20]),
       \<lparr>capacity_f = 4, ring_f = [None, None, None, None, None], pushCursor_f = 0,
        popCursorCached_f = 1, popCursor_f = 0, pushCursorCached_f = 0\<rparr>)"
    by code_simp
  have p: "popped (concat (map (\<lambda>i. [Pushed True, Popped (Some i)]) [0..<20 :: nat])) = [0..<20]"
    by code_simp
  from h t e p show ?thesis by (intro conjI)
qed

section \<open>The capacity boundary\<close>

lemma queue_exec_append:
  "queue_exec C (as @ bs) xs =
     (case queue_exec C as xs of (r1, ys) \<Rightarrow>
        case queue_exec C bs ys of (r2, zs) \<Rightarrow> (r1 @ r2, zs))"
proof (induction as arbitrary: xs)
  case Nil
  then show ?case by (simp split: prod.splits)
next
  case (Cons a as)
  show ?case
  proof (cases a)
    case (Push val)
    with Cons.IH show ?thesis by (simp split: prod.splits)
  next
    case Pop
    with Cons.IH show ?thesis by (cases xs) (simp_all split: prod.splits)
  qed
qed

lemma queue_exec_pushes:
  assumes "length xs + length vs \<le> C"
  shows "queue_exec C (map Push vs) xs = (replicate (length vs) (Pushed True), xs @ vs)"
  using assms
proof (induction vs arbitrary: xs)
  case Nil
  then show ?case by simp
next
  case (Cons v vs)
  from Cons.prems have "length xs < C" "length (xs @ [v]) + length vs \<le> C" by simp_all
  with Cons.IH[of "xs @ [v]"] show ?case by simp
qed

lemma queue_exec_boundary:
  assumes "length vs = C" "0 < C"
  shows "queue_exec C (map Push vs @ [Push v, Pop, Push v']) [] =
           (replicate C (Pushed True) @ [Pushed False, Popped (Some (hd vs)), Pushed True],
            tl vs @ [v'])"
proof -
  from assms obtain x xs where vs: "vs = x # xs" by (cases vs) auto
  from assms(1) have "queue_exec C (map Push vs) [] = (replicate C (Pushed True), vs)"
    using queue_exec_pushes[of "[]" vs C] by simp
  moreover have "queue_exec C [Push v, Pop, Push v'] vs =
      ([Pushed False, Popped (Some (hd vs)), Pushed True], tl vs @ [v'])"
    using assms vs by simp
  ultimately show ?thesis by (simp add: queue_exec_append)
qed

text \<open>
  C2. On a fresh queue of positive capacity \<open>N\<close> with its \<open>N + 1\<close> slots allocated, the
  first \<open>N\<close> pushes each return true, the next push returns false, the pop after it
  succeeds (with the first value pushed), and the push after that returns true again.
  For \<open>N\<close> the largest value of the cursor type \<open>N + 1\<close> wraps to 0 and already the
  first push writes outside the allocation (last section).
\<close>

theorem capacity_boundary:
  fixes N :: "'w::len word"
  assumes "0 < N" and "N + 1 \<noteq> 0" and "length vs = unat N"
  shows "\<exists>q :: ('a, 'w) Fifo4b.
           exec (map Push vs @ [Push v, Pop, Push v']) (Fifo4b N) =
             Inr (replicate (unat N) (Pushed True) @
                    [Pushed False, Popped (Some (hd vs)), Pushed True], q)"
proof -
  from assms(1) have "0 < unat N" by (simp add: word_less_nat_alt)
  from queue_exec_boundary[OF assms(3) this, of v v']
    fresh_exec[OF assms(1,2), of "map Push vs @ [Push v, Pop, Push v']"]
  show ?thesis by auto
qed

theorem capacity_boundary_witness:
  "0 < (2 :: 64 word) \<and> (2 :: 64 word) + 1 \<noteq> 0 \<and> length [10, 11 :: nat] = unat (2 :: 64 word) \<and>
   (\<exists>q :: (nat, 64) Fifo4b.
      exec (map Push [10, 11] @ [Push 12, Pop, Push 13]) (Fifo4b 2) =
        Inr (replicate (unat (2 :: 64 word)) (Pushed True) @
               [Pushed False, Popped (Some (hd [10, 11])), Pushed True], q)) \<and>
   exec [Push 10, Push 11, Push 12, Pop, Push (13 :: nat)] (Fifo4b (2 :: 64 word)) =
     Inr ([Pushed True, Pushed True, Pushed False, Popped (Some 10), Pushed True],
       \<lparr>capacity_f = 2, ring_f = [None, Some 11, Some 13], pushCursor_f = 0,
        popCursorCached_f = 1, popCursor_f = 1, pushCursorCached_f = 2\<rparr>)"
proof -
  have h: "0 < (2 :: 64 word)" "(2 :: 64 word) + 1 \<noteq> 0"
    "length [10, 11 :: nat] = unat (2 :: 64 word)" by simp_all
  note t = capacity_boundary [OF h, of 12 13]
  have e: "exec [Push 10, Push 11, Push 12, Pop, Push (13 :: nat)] (Fifo4b (2 :: 64 word)) =
     Inr ([Pushed True, Pushed True, Pushed False, Popped (Some 10), Pushed True],
       \<lparr>capacity_f = 2, ring_f = [None, Some 11, Some 13], pushCursor_f = 0,
        popCursorCached_f = 1, popCursor_f = 1, pushCursorCached_f = 2\<rparr>)"
    by code_simp
  from h t e show ?thesis by (intro conjI)
qed

section \<open>size against the counts of successful calls\<close>

text \<open>
  C3. On a fresh queue of positive capacity with its \<open>capacity + 1\<close> slots allocated,
  after any finite sequence of push and pop calls \<open>size()\<close> is the number of pushes that
  returned true minus the number of pops that returned true, and it is at most the
  capacity (it is never negative, being unsigned). At the largest capacity of the cursor
  type no slot is allocated and a sequence with a push has no state to take the size of
  (last section).
\<close>

theorem size_counts_elements:
  fixes cap :: "'w::len word"
  assumes "0 < cap" and "cap + 1 \<noteq> 0"
  shows "\<exists>outs (q :: ('a, 'w) Fifo4b).
           exec calls (Fifo4b cap) = Inr (outs, q) \<and>
           int (unat (size_fifo q)) = int (num_pushed outs) - int (num_popped outs) \<and>
           0 \<le> size_fifo q \<and> size_fifo q \<le> cap"
proof -
  obtain outs ys where qe: "queue_exec (unat cap) calls [] = (outs, ys)" by force
  from fresh_exec[OF assms, of calls] qe obtain q :: "('a, 'w) Fifo4b" and nq c k where
    e: "exec calls (Fifo4b cap) = Inr (outs, q)" and cq: "capacity_f q = cap"
    and tr: "tracks ys nq c k q" by auto
  from tracks_size[OF tr] queue_exec_count[OF qe]
  have "int (unat (size_fifo q)) = int (num_pushed outs) - int (num_popped outs)" by simp
  moreover from tracks_cursors[OF tr] cq have "size_fifo q \<le> cap"
    using size_le_capacity[of q] by simp
  ultimately show ?thesis using e by auto
qed

theorem size_counts_elements_witness:
  "0 < (2 :: 64 word) \<and> (2 :: 64 word) + 1 \<noteq> 0 \<and>
   (\<exists>outs (q :: (nat, 64) Fifo4b).
      exec [Push 10, Push 11, Push 12, Pop, Push 13, Pop] (Fifo4b 2) = Inr (outs, q) \<and>
      int (unat (size_fifo q)) = int (num_pushed outs) - int (num_popped outs) \<and>
      0 \<le> size_fifo q \<and> size_fifo q \<le> 2) \<and>
   exec [Push 10, Push 11, Push 12, Pop, Push (13 :: nat), Pop] (Fifo4b (2 :: 64 word)) =
     Inr ([Pushed True, Pushed True, Pushed False, Popped (Some 10), Pushed True,
           Popped (Some 11)],
       \<lparr>capacity_f = 2, ring_f = [None, None, Some 13], pushCursor_f = 0,
        popCursorCached_f = 1, popCursor_f = 2, pushCursorCached_f = 2\<rparr>) \<and>
   num_pushed [Pushed True, Pushed True, Pushed False, Popped (Some (10 :: nat)), Pushed True,
           Popped (Some 11)] = 3 \<and>
   num_popped [Pushed True, Pushed True, Pushed False, Popped (Some (10 :: nat)), Pushed True,
           Popped (Some 11)] = 2 \<and>
   size_fifo \<lparr>capacity_f = 2 :: 64 word, ring_f = [None, None, Some (13 :: nat)], pushCursor_f = 0,
        popCursorCached_f = 1, popCursor_f = 2, pushCursorCached_f = 2\<rparr> = 1"
proof -
  have h: "0 < (2 :: 64 word)" "(2 :: 64 word) + 1 \<noteq> 0" by simp_all
  note t = size_counts_elements [OF h, where 'a = nat,
      of "[Push 10, Push 11, Push 12, Pop, Push 13, Pop]"]
  have e: "exec [Push 10, Push 11, Push 12, Pop, Push (13 :: nat), Pop] (Fifo4b (2 :: 64 word)) =
     Inr ([Pushed True, Pushed True, Pushed False, Popped (Some 10), Pushed True,
           Popped (Some 11)],
       \<lparr>capacity_f = 2, ring_f = [None, None, Some 13], pushCursor_f = 0,
        popCursorCached_f = 1, popCursor_f = 2, pushCursorCached_f = 2\<rparr>)"
    by code_simp
  have n: "num_pushed [Pushed True, Pushed True, Pushed False, Popped (Some (10 :: nat)), Pushed True,
           Popped (Some 11)] = 3"
    "num_popped [Pushed True, Pushed True, Pushed False, Popped (Some (10 :: nat)), Pushed True,
           Popped (Some 11)] = 2" by simp_all
  have s: "size_fifo \<lparr>capacity_f = 2 :: 64 word, ring_f = [None, None, Some (13 :: nat)],
        pushCursor_f = 0, popCursorCached_f = 1, popCursor_f = 2, pushCursorCached_f = 2\<rparr> = 1"
    by (simp add: size_fifo_def)
  from h t e n s show ?thesis by (intro conjI)
qed

section \<open>The cached cursors\<close>

lemma states_first: "q \<in> set (states calls q)"
proof (cases calls)
  case Nil
  then show ?thesis by simp
next
  case (Cons a cs)
  then show ?thesis by (cases a) simp_all
qed

lemma cached_pop_history:
  assumes "exec calls q0 = Inr (outs, q)"
  shows "popCursorCached_f q = popCursorCached_f q0 \<or>
         popCursorCached_f q \<in> set (map popCursor_f (states calls q0))"
  using assms
proof (induction calls arbitrary: q0 outs)
  case Nil
  then show ?case by simp
next
  case (Cons a cs)
  from exec_Cons_Inr[OF Cons.prems] show ?case
  proof (elim disjE exE conjE)
    fix val b q1 rs
    assume a: "a = Push val" and p: "push val q0 = Inr (b, q1)" and e: "exec cs q1 = Inr (rs, q)"
    from a p have st: "states (a # cs) q0 = q0 # states cs q1" by simp
    from push_fields[OF p] have
      "popCursorCached_f q1 = popCursorCached_f q0 \<or> popCursorCached_f q1 = popCursor_f q0"
      by simp
    with Cons.IH[OF e] st show ?thesis by auto
  next
    fix r q1 rs
    assume a: "a = Pop" and p: "pop q0 = Inr (r, q1)" and e: "exec cs q1 = Inr (rs, q)"
    from a p have st: "states (a # cs) q0 = q0 # states cs q1" by simp
    from pop_fields[OF p] have "popCursorCached_f q1 = popCursorCached_f q0" by simp
    with Cons.IH[OF e] st show ?thesis by auto
  qed
qed

lemma cached_push_history:
  assumes "exec calls q0 = Inr (outs, q)"
  shows "pushCursorCached_f q = pushCursorCached_f q0 \<or>
         pushCursorCached_f q \<in> set (map pushCursor_f (states calls q0))"
  using assms
proof (induction calls arbitrary: q0 outs)
  case Nil
  then show ?case by simp
next
  case (Cons a cs)
  from exec_Cons_Inr[OF Cons.prems] show ?case
  proof (elim disjE exE conjE)
    fix val b q1 rs
    assume a: "a = Push val" and p: "push val q0 = Inr (b, q1)" and e: "exec cs q1 = Inr (rs, q)"
    from a p have st: "states (a # cs) q0 = q0 # states cs q1" by simp
    from push_fields[OF p] have "pushCursorCached_f q1 = pushCursorCached_f q0" by simp
    with Cons.IH[OF e] st show ?thesis by auto
  next
    fix r q1 rs
    assume a: "a = Pop" and p: "pop q0 = Inr (r, q1)" and e: "exec cs q1 = Inr (rs, q)"
    from a p have st: "states (a # cs) q0 = q0 # states cs q1" by simp
    from pop_fields[OF p] have
      "pushCursorCached_f q1 = pushCursorCached_f q0 \<or> pushCursorCached_f q1 = pushCursor_f q0"
      by simp
    with Cons.IH[OF e] st show ?thesis by auto
  qed
qed

lemma fresh_cached_history:
  fixes q :: "('a, 'w::len) Fifo4b"
  assumes "exec calls (Fifo4b cap) = Inr (outs, q)"
  shows "popCursorCached_f q \<in> set (map popCursor_f (states calls (Fifo4b cap)))"
    and "pushCursorCached_f q \<in> set (map pushCursor_f (states calls (Fifo4b cap)))"
proof -
  let ?f = "Fifo4b cap :: ('a, 'w) Fifo4b"
  have z: "popCursorCached_f ?f = popCursor_f ?f" "pushCursorCached_f ?f = pushCursor_f ?f"
    by (simp_all add: Fifo4b_def)
  have m: "popCursor_f ?f \<in> set (map popCursor_f (states calls ?f))"
    "pushCursor_f ?f \<in> set (map pushCursor_f (states calls ?f))"
    by (simp_all add: states_first)
  from cached_pop_history[OF assms] z(1) m(1)
  show "popCursorCached_f q \<in> set (map popCursor_f (states calls (Fifo4b cap)))" by auto
  from cached_push_history[OF assms] z(2) m(2)
  show "pushCursorCached_f q \<in> set (map pushCursor_f (states calls (Fifo4b cap)))" by auto
qed

lemma size_of_counts:
  fixes q :: "('a, 'w::len) Fifo4b"
  assumes P: "unat (pushCursor_f q) = (a + n) mod (unat (capacity_f q) + 1)"
    and Q: "unat (popCursor_f q) = a mod (unat (capacity_f q) + 1)"
    and n: "n \<le> unat (capacity_f q)"
  shows "unat (size_fifo q) = n"
proof -
  let ?M = "unat (capacity_f q) + 1"
  let ?P = "unat (pushCursor_f q)" and ?Q = "unat (popCursor_f q)"
  note r = word_le_of_unat_mod[OF P] word_le_of_unat_mod[OF Q]
  have Ql: "?Q < ?M" by (simp add: Q)
  have Pq: "?P = (?Q + n) mod ?M" by (simp add: P Q mod_add_left_eq)
  show ?thesis
  proof (cases "?Q + n < ?M")
    case True
    with Pq have "?P = ?Q + n" by simp
    with unat_size[OF r] show ?thesis by simp
  next
    case False
    then have "(?Q + n) mod ?M = ?Q + n - ?M"
      using Ql n by (simp add: mod_if)
    with Pq False have Pv: "?P + ?M = ?Q + n" by simp
    with n have lt: "?P < ?Q" by simp
    with unat_size[OF r]
    have "unat (size_fifo q) = unat (capacity_f q) + 1 + ?P - ?Q" by simp
    with Pv show ?thesis by simp
  qed
qed

lemma tracks_cache_views:
  assumes tr: "tracks xs nq c k q"
  shows "unat (size_fifo (q\<lparr>popCursor_f := popCursorCached_f q\<rparr>)) = nq + length xs - c"
    and "unat (size_fifo (q\<lparr>pushCursor_f := pushCursorCached_f q\<rparr>)) = k - nq"
proof -
  note t = tracksD[OF tr]
  show "unat (size_fifo (q\<lparr>popCursor_f := popCursorCached_f q\<rparr>)) = nq + length xs - c"
    by (rule size_of_counts[where a = c]) (use t in simp_all)
  show "unat (size_fifo (q\<lparr>pushCursor_f := pushCursorCached_f q\<rparr>)) = k - nq"
    by (rule size_of_counts[where a = nq]) (use t in simp_all)
qed

lemma tracks_cache_safe:
  assumes tr: "tracks xs nq c k q"
  shows "\<not> full q (pushCursor_f q) (popCursorCached_f q) \<longrightarrow> \<not> full_fifo q"
    and "\<not> empty (pushCursorCached_f q) (popCursor_f q) \<longrightarrow> \<not> empty_fifo q"
proof -
  note t = tracksD[OF tr]
  from tracks_full_cached[OF tracks_refresh_pop[OF tr]]
  have fl: "full_fifo q \<longleftrightarrow> length xs = unat (capacity_f q)"
    by (simp add: full_fifo_def)
  from tracks_empty_cached[OF tracks_refresh_push[OF tr]]
  have em: "empty_fifo q \<longleftrightarrow> xs = []" by (simp add: empty_fifo_def)
  show "\<not> full q (pushCursor_f q) (popCursorCached_f q) \<longrightarrow> \<not> full_fifo q"
    using tracks_full_cached[OF tr] fl t(8) t(9) by auto
  show "\<not> empty (pushCursorCached_f q) (popCursor_f q) \<longrightarrow> \<not> empty_fifo q"
    using tracks_empty_cached[OF tr] em t(11) t(12) by auto
qed

text \<open>What one call does to the cache of the thread that makes it.\<close>

lemma push_refresh:
  assumes "push val q = Inr (b, q')"
  shows "popCursorCached_f q' =
           (if full q (pushCursor_f q) (popCursorCached_f q) then popCursor_f q
            else popCursorCached_f q)"
  using push_cases[OF assms]
proof (elim disjE conjE)
  assume "full q (pushCursor_f q) (popCursorCached_f q)"
    "q' = q\<lparr>popCursorCached_f := popCursor_f q\<rparr>"
  then show ?thesis by simp
next
  assume f: "full q (pushCursor_f q) (popCursorCached_f q)" and
    "push_store val (pushCursor_f q) (q\<lparr>popCursorCached_f := popCursor_f q\<rparr>) = Inr (b, q')"
  from push_store_Inr[OF this(2)] f show ?thesis by simp
next
  assume f: "\<not> full q (pushCursor_f q) (popCursorCached_f q)" and
    "push_store val (pushCursor_f q) q = Inr (b, q')"
  from push_store_Inr[OF this(2)] f show ?thesis by simp
qed

lemma pop_refresh:
  assumes "pop q = Inr (r, q')"
  shows "pushCursorCached_f q' =
           (if empty (pushCursorCached_f q) (popCursor_f q) then pushCursor_f q
            else pushCursorCached_f q)"
  using pop_cases[OF assms]
proof (elim disjE conjE)
  assume "pushCursorCached_f q = popCursor_f q" "pushCursor_f q = popCursor_f q" "q' = q"
  then show ?thesis by (simp add: empty_def)
next
  assume f: "pushCursorCached_f q = popCursor_f q" and
    "pop_load (popCursor_f q) (q\<lparr>pushCursorCached_f := pushCursor_f q\<rparr>) = Inr (r, q')"
  from pop_load_Inr[OF this(2)] f show ?thesis by (simp add: empty_def)
next
  assume f: "pushCursorCached_f q \<noteq> popCursor_f q" and
    "pop_load (popCursor_f q) q = Inr (r, q')"
  from pop_load_Inr[OF this(2)] f show ?thesis by (simp add: empty_def)
qed

lemma tracks_full_live:
  assumes tr: "tracks xs nq c k q"
  shows "full_fifo q \<longleftrightarrow> length xs = unat (capacity_f q)"
  using tracks_full_cached[OF tracks_refresh_pop[OF tr]] by (simp add: full_fifo_def)

lemma tracks_empty_live:
  assumes tr: "tracks xs nq c k q"
  shows "empty_fifo q \<longleftrightarrow> xs = []"
  using tracks_empty_cached[OF tracks_refresh_push[OF tr]] by (simp add: empty_fifo_def)

lemma tracks_push_refresh:
  assumes tr: "tracks xs nq c k q"
  shows "\<exists>b q'. push val q = Inr (b, q') \<and> b = (\<not> full_fifo q) \<and>
           popCursorCached_f q' =
             (if full q (pushCursor_f q) (popCursorCached_f q) then popCursor_f q
              else popCursorCached_f q)"
proof -
  from tracks_push[OF tr, of val] obtain q' where
    p: "push val q = Inr (length xs < unat (capacity_f q), q')" by blast
  from tracks_full_live[OF tr] tracksD(4)[OF tr]
  have "(length xs < unat (capacity_f q)) = (\<not> full_fifo q)" by auto
  with p push_refresh[OF p] show ?thesis by blast
qed

lemma tracks_pop_refresh:
  assumes tr: "tracks xs nq c k q"
  shows "\<exists>r q'. pop q = Inr (r, q') \<and> (r = None) = empty_fifo q \<and>
           pushCursorCached_f q' =
             (if empty (pushCursorCached_f q) (popCursor_f q) then pushCursor_f q
              else pushCursorCached_f q)"
proof -
  define r where "r = (case xs of [] \<Rightarrow> None | x # _ \<Rightarrow> Some x)"
  from tracks_pop[OF tr] obtain q' where p: "pop q = Inr (r, q')"
    unfolding r_def by blast
  from tracks_empty_live[OF tr] have "(r = None) = empty_fifo q"
    unfolding r_def by (cases xs) simp_all
  with p pop_refresh[OF p] show ?thesis by (intro exI conjI)
qed

text \<open>
  C6, for capacities whose successor the cursor type can hold. In every state that push
  and pop calls reach from a fresh queue of positive capacity with its \<open>capacity + 1\<close>
  slots allocated, each cached cursor holds a value that its live cursor had in one of
  the states passed through, and it lags behind rather than runs ahead: counted against
  the cached pop cursor the queue looks at least as full as it is, counted against the
  cached push cursor at most as full as it is. Hence a producer check against the cache
  that says "not full" is right, and the push then succeeds; a consumer check against
  the cache that says "not empty" is right, and the pop then hands out a value. A stale
  cache can only say "full" or "empty" wrongly, and on that verdict the call reloads the
  cache from the live cursor and decides on the live value: a push returns true exactly
  when the queue is not full, a pop returns a value exactly when it is not empty.
\<close>

theorem cached_cursors_lag_safely:
  fixes cap :: "'w::len word" and q :: "('a, 'w) Fifo4b"
  assumes "0 < cap" and "cap + 1 \<noteq> 0" and "exec calls (Fifo4b cap) = Inr (outs, q)"
  shows "popCursorCached_f q \<in> set (map popCursor_f (states calls (Fifo4b cap))) \<and>
         pushCursorCached_f q \<in> set (map pushCursor_f (states calls (Fifo4b cap))) \<and>
         size_fifo q \<le> size_fifo (q\<lparr>popCursor_f := popCursorCached_f q\<rparr>) \<and>
         size_fifo (q\<lparr>pushCursor_f := pushCursorCached_f q\<rparr>) \<le> size_fifo q \<and>
         (\<not> full q (pushCursor_f q) (popCursorCached_f q) \<longrightarrow>
            \<not> full_fifo q \<and> (\<exists>q'. push val q = Inr (True, q'))) \<and>
         (\<not> empty (pushCursorCached_f q) (popCursor_f q) \<longrightarrow>
            \<not> empty_fifo q \<and> (\<exists>v q'. pop q = Inr (Some v, q'))) \<and>
         (\<exists>b q'. push val q = Inr (b, q') \<and> b = (\<not> full_fifo q) \<and>
            popCursorCached_f q' =
              (if full q (pushCursor_f q) (popCursorCached_f q) then popCursor_f q
               else popCursorCached_f q)) \<and>
         (\<exists>r q'. pop q = Inr (r, q') \<and> (r = None) = empty_fifo q \<and>
            pushCursorCached_f q' =
              (if empty (pushCursorCached_f q) (popCursor_f q) then pushCursor_f q
               else pushCursorCached_f q))"
proof -
  from fresh_exec[OF assms(1,2), of calls] assms(3) obtain xs nq c k where
    tr: "tracks xs nq c k q" by auto
  note t = tracksD[OF tr]
  note h = fresh_cached_history[OF assms(3)]
  have s1: "size_fifo q \<le> size_fifo (q\<lparr>popCursor_f := popCursorCached_f q\<rparr>)"
    using tracks_cache_views(1)[OF tr] tracks_size[OF tr] t(8)
    by (simp add: word_le_nat_alt)
  have s2: "size_fifo (q\<lparr>pushCursor_f := pushCursorCached_f q\<rparr>) \<le> size_fifo q"
    using tracks_cache_views(2)[OF tr] tracks_size[OF tr] t(12)
    by (simp add: word_le_nat_alt)
  have f: "\<not> full_fifo q \<and> (\<exists>q'. push val q = Inr (True, q'))"
    if nf: "\<not> full q (pushCursor_f q) (popCursorCached_f q)"
  proof -
    from nf tracks_full_cached[OF tr] t(8) t(9) have "length xs < unat (capacity_f q)" by simp
    with tracks_push[OF tr, of val] have "\<exists>q'. push val q = Inr (True, q')" by auto
    with tracks_cache_safe(1)[OF tr] nf show ?thesis by simp
  qed
  have e: "\<not> empty_fifo q \<and> (\<exists>v q'. pop q = Inr (Some v, q'))"
    if ne: "\<not> empty (pushCursorCached_f q) (popCursor_f q)"
  proof -
    from ne tracks_empty_cached[OF tr] t(11) t(12) have "xs \<noteq> []" by auto
    then obtain x xs' where "xs = x # xs'" by (cases xs) auto
    with tracks_pop[OF tr] have "\<exists>v q'. pop q = Inr (Some v, q')" by auto
    with tracks_cache_safe(2)[OF tr] ne show ?thesis by simp
  qed
  note rp = tracks_push_refresh[OF tr, of val] and rq = tracks_pop_refresh[OF tr]
  from h s1 s2 f e rp rq show ?thesis by blast
qed

theorem cached_cursors_lag_safely_witness:
  "0 < (4 :: 64 word) \<and> (4 :: 64 word) + 1 \<noteq> 0 \<and>
   exec [Push 1, Push 2, Pop, Push (3 :: nat)] (Fifo4b (4 :: 64 word)) =
     Inr ([Pushed True, Pushed True, Popped (Some 1), Pushed True], 
     \<lparr>capacity_f = 4 :: 64 word, ring_f = [None, Some (2 :: nat), Some 3, None, None],
        pushCursor_f = 3, popCursorCached_f = 0, popCursor_f = 1, pushCursorCached_f = 2\<rparr>) \<and>
   map popCursor_f (states [Push 1, Push 2, Pop, Push (3 :: nat)] (Fifo4b (4 :: 64 word))) =
     [0, 0, 0, 1, 1] \<and>
   map pushCursor_f (states [Push 1, Push 2, Pop, Push (3 :: nat)] (Fifo4b (4 :: 64 word))) =
     [0, 1, 2, 2, 3] \<and>
   popCursorCached_f 
     \<lparr>capacity_f = 4 :: 64 word, ring_f = [None, Some (2 :: nat), Some 3, None, None],
        pushCursor_f = 3, popCursorCached_f = 0, popCursor_f = 1, pushCursorCached_f = 2\<rparr> = 0 \<and> pushCursorCached_f 
     \<lparr>capacity_f = 4 :: 64 word, ring_f = [None, Some (2 :: nat), Some 3, None, None],
        pushCursor_f = 3, popCursorCached_f = 0, popCursor_f = 1, pushCursorCached_f = 2\<rparr> = 2 \<and>
   size_fifo 
     \<lparr>capacity_f = 4 :: 64 word, ring_f = [None, Some (2 :: nat), Some 3, None, None],
        pushCursor_f = 3, popCursorCached_f = 0, popCursor_f = 1, pushCursorCached_f = 2\<rparr> = 2 \<and>
   size_fifo (
     \<lparr>capacity_f = 4 :: 64 word, ring_f = [None, Some (2 :: nat), Some 3, None, None],
        pushCursor_f = 3, popCursorCached_f = 0, popCursor_f = 1, pushCursorCached_f = 2\<rparr>\<lparr>popCursor_f := 0\<rparr>) = 3 \<and>
   size_fifo (
     \<lparr>capacity_f = 4 :: 64 word, ring_f = [None, Some (2 :: nat), Some 3, None, None],
        pushCursor_f = 3, popCursorCached_f = 0, popCursor_f = 1, pushCursorCached_f = 2\<rparr>\<lparr>pushCursor_f := 2\<rparr>) = 1 \<and>
   \<not> full 
     \<lparr>capacity_f = 4 :: 64 word, ring_f = [None, Some (2 :: nat), Some 3, None, None],
        pushCursor_f = 3, popCursorCached_f = 0, popCursor_f = 1, pushCursorCached_f = 2\<rparr> 3 0 \<and> \<not> full_fifo 
     \<lparr>capacity_f = 4 :: 64 word, ring_f = [None, Some (2 :: nat), Some 3, None, None],
        pushCursor_f = 3, popCursorCached_f = 0, popCursor_f = 1, pushCursorCached_f = 2\<rparr> \<and>
   push 4 
     \<lparr>capacity_f = 4 :: 64 word, ring_f = [None, Some (2 :: nat), Some 3, None, None],
        pushCursor_f = 3, popCursorCached_f = 0, popCursor_f = 1, pushCursorCached_f = 2\<rparr> = Inr (True, 
     \<lparr>capacity_f = 4 :: 64 word, ring_f = [None, Some (2 :: nat), Some 3, None, None],
        pushCursor_f = 3, popCursorCached_f = 0, popCursor_f = 1, pushCursorCached_f = 2\<rparr>\<lparr>ring_f := [None, Some 2, Some 3, Some 4, None], pushCursor_f := 4\<rparr>) \<and>
   \<not> empty (2 :: 64 word) 1 \<and> \<not> empty_fifo 
     \<lparr>capacity_f = 4 :: 64 word, ring_f = [None, Some (2 :: nat), Some 3, None, None],
        pushCursor_f = 3, popCursorCached_f = 0, popCursor_f = 1, pushCursorCached_f = 2\<rparr> \<and>
   pop 
     \<lparr>capacity_f = 4 :: 64 word, ring_f = [None, Some (2 :: nat), Some 3, None, None],
        pushCursor_f = 3, popCursorCached_f = 0, popCursor_f = 1, pushCursorCached_f = 2\<rparr> = Inr (Some 2, 
     \<lparr>capacity_f = 4 :: 64 word, ring_f = [None, Some (2 :: nat), Some 3, None, None],
        pushCursor_f = 3, popCursorCached_f = 0, popCursor_f = 1, pushCursorCached_f = 2\<rparr>\<lparr>ring_f := [None, None, Some 3, None, None], popCursor_f := 2\<rparr>) \<and>
   0 < (2 :: 64 word) \<and> (2 :: 64 word) + 1 \<noteq> 0 \<and>
   exec [Push 1, Push 2, Pop, Pop] (Fifo4b (2 :: 64 word)) =
     Inr ([Pushed True, Pushed True, Popped (Some (1 :: nat)), Popped (Some 2)], 
     \<lparr>capacity_f = 2 :: 64 word, ring_f = [None, None, None :: nat option],
        pushCursor_f = 2, popCursorCached_f = 0, popCursor_f = 2, pushCursorCached_f = 2\<rparr>) \<and>
   full 
     \<lparr>capacity_f = 2 :: 64 word, ring_f = [None, None, None :: nat option],
        pushCursor_f = 2, popCursorCached_f = 0, popCursor_f = 2, pushCursorCached_f = 2\<rparr> 2 0 \<and> \<not> full_fifo 
     \<lparr>capacity_f = 2 :: 64 word, ring_f = [None, None, None :: nat option],
        pushCursor_f = 2, popCursorCached_f = 0, popCursor_f = 2, pushCursorCached_f = 2\<rparr> \<and>
   push 3 
     \<lparr>capacity_f = 2 :: 64 word, ring_f = [None, None, None :: nat option],
        pushCursor_f = 2, popCursorCached_f = 0, popCursor_f = 2, pushCursorCached_f = 2\<rparr> = Inr (True, 
     \<lparr>capacity_f = 2 :: 64 word, ring_f = [None, None, Some (3 :: nat)],
        pushCursor_f = 0, popCursorCached_f = 2, popCursor_f = 2, pushCursorCached_f = 2\<rparr>) \<and>
   popCursorCached_f 
     \<lparr>capacity_f = 2 :: 64 word, ring_f = [None, None, Some (3 :: nat)],
        pushCursor_f = 0, popCursorCached_f = 2, popCursor_f = 2, pushCursorCached_f = 2\<rparr> = popCursor_f 
     \<lparr>capacity_f = 2 :: 64 word, ring_f = [None, None, None :: nat option],
        pushCursor_f = 2, popCursorCached_f = 0, popCursor_f = 2, pushCursorCached_f = 2\<rparr> \<and>
   exec [Push 1, Push 2, Pop, Pop, Push 3] (Fifo4b (2 :: 64 word)) =
     Inr ([Pushed True, Pushed True, Popped (Some (1 :: nat)), Popped (Some 2), Pushed True], 
     \<lparr>capacity_f = 2 :: 64 word, ring_f = [None, None, Some (3 :: nat)],
        pushCursor_f = 0, popCursorCached_f = 2, popCursor_f = 2, pushCursorCached_f = 2\<rparr>) \<and>
   empty (2 :: 64 word) 2 \<and> \<not> empty_fifo 
     \<lparr>capacity_f = 2 :: 64 word, ring_f = [None, None, Some (3 :: nat)],
        pushCursor_f = 0, popCursorCached_f = 2, popCursor_f = 2, pushCursorCached_f = 2\<rparr> \<and>
   pop 
     \<lparr>capacity_f = 2 :: 64 word, ring_f = [None, None, Some (3 :: nat)],
        pushCursor_f = 0, popCursorCached_f = 2, popCursor_f = 2, pushCursorCached_f = 2\<rparr> = Inr (Some 3, 
     \<lparr>capacity_f = 2 :: 64 word, ring_f = [None, None, None :: nat option],
        pushCursor_f = 0, popCursorCached_f = 2, popCursor_f = 0, pushCursorCached_f = 0\<rparr>) \<and>
   pushCursorCached_f 
     \<lparr>capacity_f = 2 :: 64 word, ring_f = [None, None, None :: nat option],
        pushCursor_f = 0, popCursorCached_f = 2, popCursor_f = 0, pushCursorCached_f = 0\<rparr> = pushCursor_f 
     \<lparr>capacity_f = 2 :: 64 word, ring_f = [None, None, Some (3 :: nat)],
        pushCursor_f = 0, popCursorCached_f = 2, popCursor_f = 2, pushCursorCached_f = 2\<rparr>"
proof -
  have h: "0 < (4 :: 64 word)" "(4 :: 64 word) + 1 \<noteq> 0" by simp_all
  have e: "exec [Push 1, Push 2, Pop, Push (3 :: nat)] (Fifo4b (4 :: 64 word)) =
     Inr ([Pushed True, Pushed True, Popped (Some 1), Pushed True], 
     \<lparr>capacity_f = 4 :: 64 word, ring_f = [None, Some (2 :: nat), Some 3, None, None],
        pushCursor_f = 3, popCursorCached_f = 0, popCursor_f = 1, pushCursorCached_f = 2\<rparr>)"
    by code_simp
  note t = cached_cursors_lag_safely [OF h e, of 4]
  have m: "map popCursor_f (states [Push 1, Push 2, Pop, Push (3 :: nat)] (Fifo4b (4 :: 64 word))) =
     [0, 0, 0, 1, 1]"
    "map pushCursor_f (states [Push 1, Push 2, Pop, Push (3 :: nat)] (Fifo4b (4 :: 64 word))) =
     [0, 1, 2, 2, 3]"
    by code_simp+
  have c: "popCursorCached_f 
     \<lparr>capacity_f = 4 :: 64 word, ring_f = [None, Some (2 :: nat), Some 3, None, None],
        pushCursor_f = 3, popCursorCached_f = 0, popCursor_f = 1, pushCursorCached_f = 2\<rparr> = 0" "pushCursorCached_f 
     \<lparr>capacity_f = 4 :: 64 word, ring_f = [None, Some (2 :: nat), Some 3, None, None],
        pushCursor_f = 3, popCursorCached_f = 0, popCursor_f = 1, pushCursorCached_f = 2\<rparr> = 2" by simp_all
  have s: "size_fifo 
     \<lparr>capacity_f = 4 :: 64 word, ring_f = [None, Some (2 :: nat), Some 3, None, None],
        pushCursor_f = 3, popCursorCached_f = 0, popCursor_f = 1, pushCursorCached_f = 2\<rparr> = 2" "size_fifo (
     \<lparr>capacity_f = 4 :: 64 word, ring_f = [None, Some (2 :: nat), Some 3, None, None],
        pushCursor_f = 3, popCursorCached_f = 0, popCursor_f = 1, pushCursorCached_f = 2\<rparr>\<lparr>popCursor_f := 0\<rparr>) = 3"
    "size_fifo (
     \<lparr>capacity_f = 4 :: 64 word, ring_f = [None, Some (2 :: nat), Some 3, None, None],
        pushCursor_f = 3, popCursorCached_f = 0, popCursor_f = 1, pushCursorCached_f = 2\<rparr>\<lparr>pushCursor_f := 2\<rparr>) = 1"
    by (simp_all add: size_fifo_def)
  have f: "\<not> full 
     \<lparr>capacity_f = 4 :: 64 word, ring_f = [None, Some (2 :: nat), Some 3, None, None],
        pushCursor_f = 3, popCursorCached_f = 0, popCursor_f = 1, pushCursorCached_f = 2\<rparr> 3 0" "\<not> full_fifo 
     \<lparr>capacity_f = 4 :: 64 word, ring_f = [None, Some (2 :: nat), Some 3, None, None],
        pushCursor_f = 3, popCursorCached_f = 0, popCursor_f = 1, pushCursorCached_f = 2\<rparr>" "\<not> empty (2 :: 64 word) 1" "\<not> empty_fifo 
     \<lparr>capacity_f = 4 :: 64 word, ring_f = [None, Some (2 :: nat), Some 3, None, None],
        pushCursor_f = 3, popCursorCached_f = 0, popCursor_f = 1, pushCursorCached_f = 2\<rparr>"
    by (simp_all add: full_def full_fifo_def empty_def empty_fifo_def)
  have p: "push 4 
     \<lparr>capacity_f = 4 :: 64 word, ring_f = [None, Some (2 :: nat), Some 3, None, None],
        pushCursor_f = 3, popCursorCached_f = 0, popCursor_f = 1, pushCursorCached_f = 2\<rparr> = Inr (True, 
     \<lparr>capacity_f = 4 :: 64 word, ring_f = [None, Some (2 :: nat), Some 3, None, None],
        pushCursor_f = 3, popCursorCached_f = 0, popCursor_f = 1, pushCursorCached_f = 2\<rparr>\<lparr>ring_f := [None, Some 2, Some 3, Some 4, None], pushCursor_f := 4\<rparr>)"
    "pop 
     \<lparr>capacity_f = 4 :: 64 word, ring_f = [None, Some (2 :: nat), Some 3, None, None],
        pushCursor_f = 3, popCursorCached_f = 0, popCursor_f = 1, pushCursorCached_f = 2\<rparr> = Inr (Some 2, 
     \<lparr>capacity_f = 4 :: 64 word, ring_f = [None, Some (2 :: nat), Some 3, None, None],
        pushCursor_f = 3, popCursorCached_f = 0, popCursor_f = 1, pushCursorCached_f = 2\<rparr>\<lparr>ring_f := [None, None, Some 3, None, None], popCursor_f := 2\<rparr>)"
    by (simp_all add: push_def push_store_def pop_def pop_load_def full_def empty_def)
  have h2: "0 < (2 :: 64 word)" "(2 :: 64 word) + 1 \<noteq> 0" by simp_all
  have ea: "exec [Push 1, Push 2, Pop, Pop] (Fifo4b (2 :: 64 word)) =
     Inr ([Pushed True, Pushed True, Popped (Some (1 :: nat)), Popped (Some 2)], 
     \<lparr>capacity_f = 2 :: 64 word, ring_f = [None, None, None :: nat option],
        pushCursor_f = 2, popCursorCached_f = 0, popCursor_f = 2, pushCursorCached_f = 2\<rparr>)"
    by code_simp
  note ta = cached_cursors_lag_safely [OF h2 ea, of 3]
  have fa: "full 
     \<lparr>capacity_f = 2 :: 64 word, ring_f = [None, None, None :: nat option],
        pushCursor_f = 2, popCursorCached_f = 0, popCursor_f = 2, pushCursorCached_f = 2\<rparr> 2 0" "\<not> full_fifo 
     \<lparr>capacity_f = 2 :: 64 word, ring_f = [None, None, None :: nat option],
        pushCursor_f = 2, popCursorCached_f = 0, popCursor_f = 2, pushCursorCached_f = 2\<rparr>"
    by (simp_all add: full_def full_fifo_def)
  have pa: "push 3 
     \<lparr>capacity_f = 2 :: 64 word, ring_f = [None, None, None :: nat option],
        pushCursor_f = 2, popCursorCached_f = 0, popCursor_f = 2, pushCursorCached_f = 2\<rparr> = Inr (True, 
     \<lparr>capacity_f = 2 :: 64 word, ring_f = [None, None, Some (3 :: nat)],
        pushCursor_f = 0, popCursorCached_f = 2, popCursor_f = 2, pushCursorCached_f = 2\<rparr>)"
    by (simp add: push_def push_store_def full_def)
  have ca: "popCursorCached_f 
     \<lparr>capacity_f = 2 :: 64 word, ring_f = [None, None, Some (3 :: nat)],
        pushCursor_f = 0, popCursorCached_f = 2, popCursor_f = 2, pushCursorCached_f = 2\<rparr> = popCursor_f 
     \<lparr>capacity_f = 2 :: 64 word, ring_f = [None, None, None :: nat option],
        pushCursor_f = 2, popCursorCached_f = 0, popCursor_f = 2, pushCursorCached_f = 2\<rparr>" by simp
  have eb: "exec [Push 1, Push 2, Pop, Pop, Push 3] (Fifo4b (2 :: 64 word)) =
     Inr ([Pushed True, Pushed True, Popped (Some (1 :: nat)), Popped (Some 2), Pushed True], 
     \<lparr>capacity_f = 2 :: 64 word, ring_f = [None, None, Some (3 :: nat)],
        pushCursor_f = 0, popCursorCached_f = 2, popCursor_f = 2, pushCursorCached_f = 2\<rparr>)"
    by code_simp
  note tb = cached_cursors_lag_safely [OF h2 eb, of 3]
  have fb: "empty (2 :: 64 word) 2" "\<not> empty_fifo 
     \<lparr>capacity_f = 2 :: 64 word, ring_f = [None, None, Some (3 :: nat)],
        pushCursor_f = 0, popCursorCached_f = 2, popCursor_f = 2, pushCursorCached_f = 2\<rparr>"
    by (simp_all add: empty_def empty_fifo_def)
  have pb: "pop 
     \<lparr>capacity_f = 2 :: 64 word, ring_f = [None, None, Some (3 :: nat)],
        pushCursor_f = 0, popCursorCached_f = 2, popCursor_f = 2, pushCursorCached_f = 2\<rparr> = Inr (Some 3, 
     \<lparr>capacity_f = 2 :: 64 word, ring_f = [None, None, None :: nat option],
        pushCursor_f = 0, popCursorCached_f = 2, popCursor_f = 0, pushCursorCached_f = 0\<rparr>)"
    by (simp add: pop_def pop_load_def empty_def)
  have cb: "pushCursorCached_f 
     \<lparr>capacity_f = 2 :: 64 word, ring_f = [None, None, None :: nat option],
        pushCursor_f = 0, popCursorCached_f = 2, popCursor_f = 0, pushCursorCached_f = 0\<rparr> = pushCursor_f 
     \<lparr>capacity_f = 2 :: 64 word, ring_f = [None, None, Some (3 :: nat)],
        pushCursor_f = 0, popCursorCached_f = 2, popCursor_f = 2, pushCursorCached_f = 2\<rparr>" by simp
  from h e t m c s f p h2 ea ta fa pa ca eb tb fb pb cb show ?thesis by (intro conjI)
qed

section \<open>Where the cursor arithmetic stays in range, and where the ring has no slots\<close>

text \<open>
  On cursors in range every value \<open>size\<close> computes is the exact one (nothing wraps) and
  lies in \<open>[0, capacity]\<close>; the first branch of \<open>full\<close> is exact as well. Only the
  subtraction \<open>pushCursor - capacity_\<close> in the second branch of \<open>full\<close> leaves the range.
\<close>

lemma size_arith_exact:
  fixes q :: "('a, 'w::len) Fifo4b"
  assumes pu: "pushCursor_f q \<le> capacity_f q" and po: "popCursor_f q \<le> capacity_f q"
  shows "map uint (size_arith q) = size_exact q"
proof (cases "popCursor_f q \<le> pushCursor_f q")
  case True
  then have "uint (pushCursor_f q - popCursor_f q) = uint (pushCursor_f q) - uint (popCursor_f q)"
    by (simp add: uint_sub_if' word_le_def)
  with True show ?thesis by (simp add: size_arith_def size_exact_def word_le_def)
next
  case False
  let ?P = "uint (pushCursor_f q)" and ?Q = "uint (popCursor_f q)" and ?C = "uint (capacity_f q)"
  from False have lt: "?P < ?Q" by (simp add: word_le_def)
  from po have QC: "?Q \<le> ?C" by (simp add: word_le_def)
  have bd: "?C < 2 ^ LENGTH('w)" by (rule uint_lt2p)
  from lt QC bd have "?P + 1 < 2 ^ LENGTH('w)" by linarith
  then have s: "uint (pushCursor_f q + 1) = ?P + 1"
    by (simp add: uint_plus_if')
  with lt have le1: "pushCursor_f q + 1 \<le> popCursor_f q" by (simp add: word_le_def)
  then have d: "uint (popCursor_f q - (pushCursor_f q + 1)) = ?Q - (?P + 1)"
    using s by (simp add: uint_sub_if' word_le_def)
  with uint_ge_0[of "pushCursor_f q"] QC
  have "uint (popCursor_f q - (pushCursor_f q + 1)) \<le> ?C" by linarith
  then have "popCursor_f q - (pushCursor_f q + 1) \<le> capacity_f q"
    by (simp add: word_le_def)
  then have "uint (capacity_f q - (popCursor_f q - (pushCursor_f q + 1))) = ?C - (?Q - (?P + 1))"
    using d by (simp add: uint_sub_if' word_le_def)
  with False lt s d show ?thesis
    by (simp add: size_arith_def size_exact_def word_le_def Let_def)
qed

lemma size_values_in_range:
  fixes P Q C :: int
  assumes "0 \<le> P" "0 \<le> Q" "P \<le> C" "Q \<le> C"
  shows "\<forall>x \<in> set (if Q \<le> P then [P - Q] else [P + 1, Q - (P + 1), C - (Q - (P + 1))]).
           0 \<le> x \<and> x \<le> C"
  using assms by auto

lemma size_exact_in_range:
  fixes q :: "('a, 'w::len) Fifo4b"
  assumes pu: "pushCursor_f q \<le> capacity_f q" and po: "popCursor_f q \<le> capacity_f q"
  shows "\<forall>x \<in> set (size_exact q). 0 \<le> x \<and> x \<le> uint (capacity_f q)"
proof -
  from pu po have "uint (pushCursor_f q) \<le> uint (capacity_f q)"
    "uint (popCursor_f q) \<le> uint (capacity_f q)" by (simp_all add: word_le_def)
  from size_values_in_range[OF uint_ge_0 uint_ge_0 this]
  show ?thesis by (simp only: size_exact_def Let_def)
qed

lemma full_arith_first_branch_exact:
  assumes "pushCursor < popCursor" "popCursor \<le> capacity_f q"
  shows "map uint (full_arith q pushCursor popCursor) = full_exact q pushCursor popCursor \<and>
         (\<forall>x \<in> set (full_exact q pushCursor popCursor). 0 \<le> x \<and> x \<le> uint (capacity_f q))"
proof -
  from assms(1) have "uint pushCursor < uint popCursor" by (simp add: word_less_def)
  with uint_ge_0[of pushCursor] have pos: "0 < uint popCursor" by linarith
  then have "1 \<le> popCursor" by (simp add: word_le_def)
  then have "uint (popCursor - 1) = uint popCursor - 1"
    by (simp add: uint_sub_if' word_le_def)
  moreover from assms(2) have "uint popCursor \<le> uint (capacity_f q)" by (simp add: word_le_def)
  ultimately show ?thesis using assms(1) pos by (simp add: full_arith_def full_exact_def)
qed

lemma full_arith_second_branch_underflows:
  assumes "popCursor < pushCursor" "pushCursor < capacity_f q"
  shows "full_exact q pushCursor popCursor = [uint pushCursor - uint (capacity_f q)] \<and>
         uint pushCursor - uint (capacity_f q) < 0 \<and>
         map uint (full_arith q pushCursor popCursor) \<noteq> full_exact q pushCursor popCursor"
proof -
  from assms(1) have nl: "\<not> pushCursor < popCursor" by simp
  from assms(2) have neg: "uint pushCursor - uint (capacity_f q) < 0" by (simp add: word_less_def)
  from neg uint_ge_0[of "pushCursor - capacity_f q"] have "uint (pushCursor - capacity_f q) \<noteq> uint pushCursor - uint (capacity_f q)"
    by linarith
  with assms(1) nl neg show ?thesis by (simp add: full_arith_def full_exact_def)
qed

subsection \<open>The largest capacity\<close>

text \<open>
  With the largest capacity the cursor type can hold, \<open>capacity + 1\<close> wraps to 0: the
  constructor allocates no slot and the first push writes outside the allocation.
\<close>

lemma no_slot_at_largest_capacity:
  "ring_f (Fifo4b (- 1 :: 'w::len word) :: ('a, 'w) Fifo4b) = [] \<and>
   push val (Fifo4b (- 1 :: 'w::len word) :: ('a, 'w) Fifo4b) = Inl OutOfBounds"
  by (simp add: Fifo4b_def push_def push_store_def full_def)

text \<open>
  The same at 64 bits, capacity \<open>2^64 - 1\<close>, which is positive. A push followed by a pop
  does not hand the pushed value back: the run faults at the push.
\<close>

theorem largest_capacity_run_faults:
  "0 < (18446744073709551615 :: 64 word) \<and>
   exec [Push (1 :: nat), Pop] (Fifo4b (18446744073709551615 :: 64 word)) = Inl OutOfBounds"
  by (simp add: Fifo4b_def push_def push_store_def full_def)

text \<open>The first of the \<open>2^64 - 1\<close> pushes does not return true: the ring has no slot.\<close>

theorem largest_capacity_first_push_faults:
  "0 < (18446744073709551615 :: 64 word) \<and>
   ring_f (Fifo4b (18446744073709551615 :: 64 word) :: (nat, 64) Fifo4b) = [] \<and>
   push (10 :: nat) (Fifo4b (18446744073709551615 :: 64 word)) = Inl OutOfBounds"
  by (simp add: Fifo4b_def push_def push_store_def full_def)

text \<open>A failed pop followed by a push leaves no state whose size could be taken.\<close>

theorem largest_capacity_no_size_after_push:
  "0 < (18446744073709551615 :: 64 word) \<and>
   exec [Pop, Push (7 :: nat)] (Fifo4b (18446744073709551615 :: 64 word)) = Inl OutOfBounds"
  by (simp add: Fifo4b_def push_def push_store_def pop_def empty_def full_def)

text \<open>
  In the fresh state the check against the cached pop cursor says "not full", and the
  queue is not full, yet the push that goes ahead writes outside the allocation.
\<close>

theorem largest_capacity_go_ahead_unsafe:
  "0 < (18446744073709551615 :: 64 word) \<and>
   exec [] (Fifo4b (18446744073709551615 :: 64 word) :: (nat, 64) Fifo4b) =
     Inr ([], Fifo4b 18446744073709551615) \<and>
   \<not> full (Fifo4b (18446744073709551615 :: 64 word) :: (nat, 64) Fifo4b)
       (pushCursor_f (Fifo4b (18446744073709551615 :: 64 word) :: (nat, 64) Fifo4b))
       (popCursorCached_f (Fifo4b (18446744073709551615 :: 64 word) :: (nat, 64) Fifo4b)) \<and>
   \<not> full_fifo (Fifo4b (18446744073709551615 :: 64 word) :: (nat, 64) Fifo4b) \<and>
   push (5 :: nat) (Fifo4b (18446744073709551615 :: 64 word)) = Inl OutOfBounds"
  by (simp add: Fifo4b_def push_def push_store_def full_def full_fifo_def)

end
